theory Spec2Isabelle
  imports Complex_Main
begin

section \<open>Board evaluator and search engine (public/game.mjs)\<close>

subsection \<open>Data\<close>

text \<open>
  A cell of the board holds \<^verbatim>\<open>'X'\<close> (the player), \<^verbatim>\<open>'O'\<close> (the computer) or
  \<^verbatim>\<open>null\<close>. The board is a JavaScript array; the game always uses nine cells, but
  the functions of the module accept an array of any length, so the model does too.
\<close>

datatype mark = X_mark | O_mark

type_synonym cell = "mark option"

type_synonym board = "cell list"

text \<open>
  \<^verbatim>\<open>currentBoard[i]\<close>: a read beyond the end of a JavaScript array gives
  \<^verbatim>\<open>undefined\<close>, which is falsy and equal to neither mark, exactly as \<^verbatim>\<open>null\<close> is
  for every test the module makes.
\<close>

definition cellAt :: "board \<Rightarrow> nat \<Rightarrow> cell" where
  "cellAt currentBoard i = (if i < length currentBoard then currentBoard ! i else None)"

definition winningCombos :: "nat list list" where
  "winningCombos =
     [[0, 1, 2], [3, 4, 5], [6, 7, 8],
      [0, 3, 6], [1, 4, 7], [2, 5, 8],
      [0, 4, 8], [2, 4, 6]]"

text \<open>The object returned by \<^verbatim>\<open>evaluateBoard\<close>; \<^verbatim>\<open>null\<close> is \<open>None\<close>.\<close>

record outcome =
  winner :: cell
  combo :: "nat list option"
  isDraw :: bool

subsection \<open>evaluateBoard\<close>

text \<open>
  The \<^verbatim>\<open>for (const combo of winningCombos)\<close> loop with its early return: the first
  combo whose first cell is truthy and equal to the two others decides.
\<close>

fun findWinner :: "board \<Rightarrow> nat list list \<Rightarrow> outcome option" where
  "findWinner currentBoard [] = None"
| "findWinner currentBoard (cmb # rest) =
     (let a = cmb ! 0; b = cmb ! 1; c = cmb ! 2 in
      if cellAt currentBoard a \<noteq> None
         \<and> cellAt currentBoard a = cellAt currentBoard b
         \<and> cellAt currentBoard a = cellAt currentBoard c
      then Some \<lparr>winner = cellAt currentBoard a, combo = Some cmb, isDraw = False\<rparr>
      else findWinner currentBoard rest)"

definition evaluateBoard :: "board \<Rightarrow> outcome option" where
  "evaluateBoard currentBoard =
     (case findWinner currentBoard winningCombos of
        Some res \<Rightarrow> Some res
      | None \<Rightarrow>
          if list_all (\<lambda>v. v \<noteq> None) currentBoard
          then Some \<lparr>winner = None, combo = None, isDraw = True\<rparr>
          else None)"


subsection \<open>JavaScript numbers used as scores\<close>

text \<open>
  Every score the module computes is an integer of small magnitude, except the two
  initial values \<^verbatim>\<open>-Infinity\<close> and \<^verbatim>\<open>Infinity\<close> of the running best score. The
  depth is an integer as well (the callers start at 0 and add 1).
\<close>

datatype jsnum = NegInf | Fin int | PosInf

text \<open>
  The order of JavaScript numbers on these values, so that \<^verbatim>\<open>a < b\<close>,
  \<^verbatim>\<open>Math.max\<close> and \<^verbatim>\<open>Math.min\<close> read as \<open>a < b\<close>, \<open>max\<close> and \<open>min\<close>.
\<close>

instantiation jsnum :: linorder
begin

fun less_jsnum :: "jsnum \<Rightarrow> jsnum \<Rightarrow> bool" where
  "less_jsnum NegInf NegInf = False"
| "less_jsnum NegInf (Fin b) = True"
| "less_jsnum NegInf PosInf = True"
| "less_jsnum (Fin a) NegInf = False"
| "less_jsnum (Fin a) (Fin b) = (a < b)"
| "less_jsnum (Fin a) PosInf = True"
| "less_jsnum PosInf b = False"

definition less_eq_jsnum :: "jsnum \<Rightarrow> jsnum \<Rightarrow> bool" where
  "less_eq_jsnum a b = (a = b \<or> a < b)"

instance
proof
  fix x y z :: jsnum
  show "(x < y) = (x \<le> y \<and> \<not> y \<le> x)"
    by (cases x; cases y) (auto simp: less_eq_jsnum_def)
  show "x \<le> x"
    by (simp add: less_eq_jsnum_def)
  show "x \<le> y \<Longrightarrow> y \<le> z \<Longrightarrow> x \<le> z"
    by (cases x; cases y; cases z) (auto simp: less_eq_jsnum_def)
  show "x \<le> y \<Longrightarrow> y \<le> x \<Longrightarrow> x = y"
    by (cases x; cases y) (auto simp: less_eq_jsnum_def)
  show "x \<le> y \<or> y \<le> x"
    by (cases x; cases y) (auto simp: less_eq_jsnum_def)
qed

end

subsection \<open>scoreBoard\<close>

text \<open>
  The body of the loop over the combos, as a function of the running score: the
  \<^verbatim>\<open>continue\<close> leaves the score as it is, otherwise the four \<^verbatim>\<open>if\<close> statements
  run one after the other.
\<close>

definition scoreCombo :: "board \<Rightarrow> nat list \<Rightarrow> int \<Rightarrow> int" where
  "scoreCombo currentBoard cmb score =
     (let vals = map (cellAt currentBoard) cmb;
          oCount = length (filter (\<lambda>v. v = Some O_mark) vals);
          xCount = length (filter (\<lambda>v. v = Some X_mark) vals)
      in if oCount > 0 \<and> xCount > 0 then score
         else
           let score = (if oCount = 2 \<and> xCount = 0 then score + 3 else score);
               score = (if oCount = 1 \<and> xCount = 0 then score + 1 else score);
               score = (if xCount = 2 \<and> oCount = 0 then score - 3 else score);
               score = (if xCount = 1 \<and> oCount = 0 then score - 1 else score)
           in score)"

fun scoreLoop :: "board \<Rightarrow> nat list list \<Rightarrow> int \<Rightarrow> int" where
  "scoreLoop currentBoard [] score = score"
| "scoreLoop currentBoard (cmb # rest) score =
     scoreLoop currentBoard rest (scoreCombo currentBoard cmb score)"

definition scoreBoard :: "board \<Rightarrow> int" where
  "scoreBoard currentBoard = scoreLoop currentBoard winningCombos 0"

subsection \<open>minimax\<close>

text \<open>
  \<^verbatim>\<open>minimax\<close> writes into the array it is given and undoes each write, so the model
  passes the board through and returns it beside the score. The two
  \<^verbatim>\<open>currentBoard.forEach\<close> loops are \<open>maximizeEach\<close> and \<open>minimizeEach\<close>:
  \<^verbatim>\<open>forEach\<close> fixes the range of indices when it starts and then visits each index
  still present, handing the callback the element as it is at that moment.
  \<^verbatim>\<open>Number.isFinite(maxDepth)\<close> holds for a number and fails for \<^verbatim>\<open>null\<close>; the cap
  is \<open>Some cap\<close> or \<open>None\<close>.
\<close>

definition empties :: "board \<Rightarrow> nat" where
  "empties currentBoard = length (filter (\<lambda>v. v = None) currentBoard)"

function minimax :: "board \<Rightarrow> int \<Rightarrow> bool \<Rightarrow> int option \<Rightarrow> jsnum \<times> board"
  and maximizeEach :: "nat list \<Rightarrow> board \<Rightarrow> int \<Rightarrow> int option \<Rightarrow> jsnum \<Rightarrow> jsnum \<times> board"
  and minimizeEach :: "nat list \<Rightarrow> board \<Rightarrow> int \<Rightarrow> int option \<Rightarrow> jsnum \<Rightarrow> jsnum \<times> board"
where
  "minimax currentBoard depth isMaximizing maxDepth =
     (case evaluateBoard currentBoard of
        Some outc \<Rightarrow>
          if isDraw outc then (Fin 0, currentBoard)
          else (if winner outc = Some O_mark then Fin (10 - depth) else Fin (depth - 10),
                currentBoard)
      | None \<Rightarrow>
          if (case maxDepth of Some cap \<Rightarrow> depth \<ge> cap | None \<Rightarrow> False)
          then (Fin (scoreBoard currentBoard), currentBoard)
          else if isMaximizing
          then maximizeEach [0..<length currentBoard] currentBoard depth maxDepth NegInf
          else minimizeEach [0..<length currentBoard] currentBoard depth maxDepth PosInf)"
| "maximizeEach [] currentBoard depth maxDepth bestScore = (bestScore, currentBoard)"
| "maximizeEach (index # rest) currentBoard depth maxDepth bestScore =
     (if index < length currentBoard \<and> currentBoard ! index = None then
        (case minimax (currentBoard[index := Some O_mark]) (depth + 1) False maxDepth of
           (score, board1) \<Rightarrow>
             maximizeEach rest (board1[index := None]) depth maxDepth
               (max bestScore score))
      else maximizeEach rest currentBoard depth maxDepth bestScore)"
| "minimizeEach [] currentBoard depth maxDepth bestScore = (bestScore, currentBoard)"
| "minimizeEach (index # rest) currentBoard depth maxDepth bestScore =
     (if index < length currentBoard \<and> currentBoard ! index = None then
        (case minimax (currentBoard[index := Some X_mark]) (depth + 1) True maxDepth of
           (score, board1) \<Rightarrow>
             minimizeEach rest (board1[index := None]) depth maxDepth
               (min bestScore score))
      else minimizeEach rest currentBoard depth maxDepth bestScore)"
  by pat_completeness auto

text \<open>
  Termination: a call of \<open>minimax\<close> from a loop fills an empty cell, and the loop goes
  on with the board that call hands back, which is the board it received.
\<close>

termination
proof -
  have fill: "empties (b[i := Some m]) < empties b" if "i < length b" and "b ! i = None"
    for b :: board and i m
    using that
  proof (induction b arbitrary: i)
    case Nil
    then show ?case by simp
  next
    case (Cons c b)
    show ?case
    proof (cases i)
      case 0
      with Cons.prems show ?thesis by (simp add: empties_def)
    next
      case (Suc j)
      with Cons.prems have "empties (b[j := Some m]) < empties b"
        by (intro Cons.IH) simp_all
      with Suc show ?thesis by (simp add: empties_def)
    qed
  qed
  have restored:
    "minimax_maximizeEach_minimizeEach_dom (Inl (cb, d, m, md)) \<Longrightarrow>
       snd (minimax cb d m md) = cb"
    "minimax_maximizeEach_minimizeEach_dom (Inr (Inl (is1, cb1, d1, md1, best1))) \<Longrightarrow>
       snd (maximizeEach is1 cb1 d1 md1 best1) = cb1"
    "minimax_maximizeEach_minimizeEach_dom (Inr (Inr (is2, cb2, d2, md2, best2))) \<Longrightarrow>
       snd (minimizeEach is2 cb2 d2 md2 best2) = cb2"
    for cb d m md is1 cb1 d1 md1 best1 is2 cb2 d2 md2 best2
  proof (induct rule: minimax_maximizeEach_minimizeEach.pinduct)
    case (1 currentBoard depth isMaximizing maxDepth)
    then show ?case
      by (auto simp add: minimax.psimps split: option.split)
  next
    case (2 currentBoard depth maxDepth bestScore)
    then show ?case by (simp add: maximizeEach.psimps)
  next
    case (3 index rest currentBoard depth maxDepth bestScore)
    show ?case
    proof (cases "index < length currentBoard \<and> currentBoard ! index = None")
      case True
      obtain s y where sy:
        "(s, y) = minimax (currentBoard[index := Some O_mark]) (depth + 1) False maxDepth"
        by (metis surj_pair)
      from 3(2) True sy have y: "y = currentBoard[index := Some O_mark]"
        by (metis snd_conv)
      from 3(3)[OF True sy]
      have "snd (maximizeEach rest (y[index := None]) depth maxDepth (max bestScore s))
              = y[index := None]" .
      moreover have "y[index := None] = currentBoard"
        using y True by (simp add: list_update_same_conv)
      ultimately show ?thesis
        using True sy[symmetric] 3(1) by (simp add: maximizeEach.psimps)
    next
      case False
      with 3 show ?thesis by (auto simp add: maximizeEach.psimps)
    qed
  next
    case (4 currentBoard depth maxDepth bestScore)
    then show ?case by (simp add: minimizeEach.psimps)
  next
    case (5 index rest currentBoard depth maxDepth bestScore)
    show ?case
    proof (cases "index < length currentBoard \<and> currentBoard ! index = None")
      case True
      obtain s y where sy:
        "(s, y) = minimax (currentBoard[index := Some X_mark]) (depth + 1) True maxDepth"
        by (metis surj_pair)
      from 5(2) True sy have y: "y = currentBoard[index := Some X_mark]"
        by (metis snd_conv)
      from 5(3)[OF True sy]
      have "snd (minimizeEach rest (y[index := None]) depth maxDepth (min bestScore s))
              = y[index := None]" .
      moreover have "y[index := None] = currentBoard"
        using y True by (simp add: list_update_same_conv)
      ultimately show ?thesis
        using True sy[symmetric] 5(1) by (simp add: minimizeEach.psimps)
    next
      case False
      with 5 show ?thesis by (auto simp add: minimizeEach.psimps)
    qed
  qed
  show ?thesis
  proof (relation "inv_image (less_than <*lex*> less_than)
       (\<lambda>x. case x of
           Inl (cb, d, m, md) \<Rightarrow> (2 * empties cb + 1, 0)
         | Inr (Inl (ixs, cb, d, md, best)) \<Rightarrow> (2 * empties cb, length ixs)
         | Inr (Inr (ixs, cb, d, md, best)) \<Rightarrow> (2 * empties cb, length ixs))", goal_cases)
    case 1
    show ?case by (intro wf_inv_image wf_lex_prod wf_less_than)
  next
    case 2
    then show ?case by simp
  next
    case 3
    then show ?case by simp
  next
    case (4 index rest cb d md best)
    then show ?case using fill[of index cb O_mark] by simp
  next
    case (5 index rest cb d md best s y)
    then have "y = cb[index := Some O_mark]" using restored(1) by (metis snd_conv)
    with 5 have "y[index := None] = cb" by (simp add: list_update_same_conv)
    then show ?case by simp
  next
    case 6
    then show ?case by simp
  next
    case (7 index rest cb d md best)
    then show ?case using fill[of index cb X_mark] by simp
  next
    case (8 index rest cb d md best s y)
    then have "y = cb[index := Some X_mark]" using restored(1) by (metis snd_conv)
    with 8 have "y[index := None] = cb" by (simp add: list_update_same_conv)
    then show ?case by simp
  next
    case 9
    then show ?case by simp
  qed
qed

subsection \<open>getBestMove\<close>

text \<open>
  The \<^verbatim>\<open>forEach\<close> of \<^verbatim>\<open>getBestMove\<close>, with its two variables \<^verbatim>\<open>bestScore\<close> and
  \<^verbatim>\<open>move\<close>; \<^verbatim>\<open>null\<close> for the move is \<open>None\<close>.
\<close>

fun bestMoveEach ::
  "nat list \<Rightarrow> board \<Rightarrow> int option \<Rightarrow> jsnum \<Rightarrow> nat option \<Rightarrow> nat option \<times> board" where
  "bestMoveEach [] currentBoard maxDepth bestScore move = (move, currentBoard)"
| "bestMoveEach (index # rest) currentBoard maxDepth bestScore move =
     (if index < length currentBoard \<and> currentBoard ! index = None then
        (case minimax (currentBoard[index := Some O_mark]) 0 False maxDepth of
           (score, board1) \<Rightarrow>
             if score > bestScore
             then bestMoveEach rest (board1[index := None]) maxDepth score (Some index)
             else bestMoveEach rest (board1[index := None]) maxDepth bestScore move)
      else bestMoveEach rest currentBoard maxDepth bestScore move)"

definition getBestMove :: "board \<Rightarrow> int option \<Rightarrow> nat option \<times> board" where
  "getBestMove currentBoard maxDepth =
     bestMoveEach [0..<length currentBoard] currentBoard maxDepth NegInf None"

subsection \<open>getRandomMove and getAiMove\<close>

text \<open>
  \<^verbatim>\<open>Math.random()\<close> is an input of the model: a real number, which the platform
  promises to lie in the interval from 0 (included) to 1 (excluded). \<open>getAiMove\<close>
  takes the value its own call would read and the value the call inside
  \<^verbatim>\<open>getRandomMove\<close> would read. \<^verbatim>\<open>getRandomMove\<close> builds new arrays and writes
  nothing into the board.
\<close>

definition getRandomMove :: "real \<Rightarrow> board \<Rightarrow> nat option" where
  "getRandomMove random2 currentBoard =
     (let available =
            filter (\<lambda>v. v \<noteq> None)
              (map (\<lambda>(v, index). if v \<noteq> None then None else Some index)
                 (zip currentBoard [0..<length currentBoard]));
          choice = \<lfloor>random2 * real (length available)\<rfloor>
      in if available = [] then None
         else if 0 \<le> choice \<and> nat choice < length available then available ! nat choice
         else None)"

record settings =
  blunderRate :: real
  maxDepth :: "int option"

text \<open>
  The keys of \<^verbatim>\<open>difficultySettings\<close>; a key that is not there reads as
  \<^verbatim>\<open>undefined\<close> and \<^verbatim>\<open>getAiMove\<close> falls back to the normal settings. (A string
  that names a property every JavaScript object inherits, such as
  \<^verbatim>\<open>constructor\<close>, is not covered: the page passes one of the three keys.)
\<close>

definition difficultySettings :: "string \<Rightarrow> settings option" where
  "difficultySettings key =
     (if key = ''easy'' then Some \<lparr>blunderRate = 0.25, maxDepth = None\<rparr>
      else if key = ''normal'' then Some \<lparr>blunderRate = 0, maxDepth = Some 3\<rparr>
      else if key = ''hard'' then Some \<lparr>blunderRate = 0, maxDepth = None\<rparr>
      else None)"

definition getAiMove :: "real \<Rightarrow> real \<Rightarrow> board \<Rightarrow> string \<Rightarrow> nat option \<times> board" where
  "getAiMove random1 random2 currentBoard difficulty =
     (let cfg = (case difficultySettings difficulty of
                   Some found \<Rightarrow> found
                 | None \<Rightarrow> the (difficultySettings ''normal''))
      in if difficulty = ''easy'' \<and> random1 < blunderRate cfg
         then (getRandomMove random2 currentBoard, currentBoard)
         else getBestMove currentBoard (maxDepth cfg))"

section \<open>Result endpoint (the server)\<close>

text \<open>
  The sources hold three successive versions of the server. This is the first; the later
  two resolve the session from Telegram init data, send the notification to that user's
  chat and word the text for a loss differently, while the ledger, the idempotency cache
  and the order of the steps of the handler are the same.
\<close>

subsection \<open>Constants and data\<close>

text \<open>
  Times are the milliseconds \<^verbatim>\<open>Date.now()\<close> returns. A string of the model is the
  list of the code units of the JavaScript string, so that \<open>length\<close> is its
  \<^verbatim>\<open>.length\<close>; the two messages in Cyrillic are written as their UTF-8 bytes.
\<close>

definition PROMO_TTL_MS :: int where
  "PROMO_TTL_MS = 7 * 24 * 60 * 60 * 1000"

definition SESSION_COOLDOWN_MS :: int where
  "SESSION_COOLDOWN_MS = 24 * 60 * 60 * 1000"

definition EVENT_TTL_MS :: int where
  "EVENT_TTL_MS = 24 * 60 * 60 * 1000"

text \<open>
  A field of the parsed JSON body, as far as \<^verbatim>\<open>RESULT_SCHEMA\<close> tells values apart: the
  key is missing, the value is a string, or it is any other JSON value.
\<close>

datatype jsonField = Missing | Text string | Other

datatype requestBody = NotAnObject | Fields jsonField jsonField

record parsedData =
  result :: string
  eventId :: "string option"

text \<open>The JSON sent back: \<^verbatim>\<open>{status, code?}\<close> or \<^verbatim>\<open>{status, message}\<close>.\<close>

record payload =
  status :: string
  code :: "string option"
  message :: "string option"

record sessionEntry =
  sessionCode :: string
  sessionCreatedAt :: int

record codeEntry =
  codeCreatedAt :: int
  codeSessionId :: string
  redeemed :: bool

record eventEntry =
  eventCreatedAt :: int
  response :: payload

text \<open>
  The three maps of the process, and the texts handed to \<^verbatim>\<open>sendTelegramMessage\<close> so
  far, in the order of the calls of \<^verbatim>\<open>queueTelegramMessage\<close> that passed them on.
\<close>

record store =
  issuedBySession :: "string \<rightharpoonup> sessionEntry"
  issuedCodes :: "string \<rightharpoonup> codeEntry"
  processedEvents :: "string \<rightharpoonup> eventEntry"
  queued :: "string list"

text \<open>
  What a request brings and what the platform supplies while it is handled: the body, the
  \<^verbatim>\<open>sid\<close> cookie, the value of each \<^verbatim>\<open>Date.now()\<close> on the way (in
  \<^verbatim>\<open>pruneExpired\<close>, in \<^verbatim>\<open>getSessionPromo\<close>, for \<^verbatim>\<open>createdAt\<close> of a new code, for the
  idempotency entry), the UUID \<^verbatim>\<open>crypto.randomUUID()\<close> would return and the number the
  \<open>i\<close>-th call of \<^verbatim>\<open>crypto.randomInt(10000, 100000)\<close> would return.
\<close>

record request =
  reqBody :: requestBody
  cookieSid :: "string option"
  nowPrune :: int
  nowPromo :: int
  nowMint :: int
  nowEvent :: int
  randomUUID :: string
  randomInt :: "nat \<Rightarrow> nat"

record httpResponse =
  httpStatus :: nat
  body :: payload
  setCookie :: "string option"

subsection \<open>RESULT\_SCHEMA\<close>

definition RESULT_SCHEMA_safeParse :: "requestBody \<Rightarrow> parsedData option" where
  "RESULT_SCHEMA_safeParse b =
     (case b of
        NotAnObject \<Rightarrow> None
      | Fields r e \<Rightarrow>
          (case r of
             Text res \<Rightarrow>
               if res \<in> set [''win'', ''loss'', ''draw'']
               then (case e of
                       Missing \<Rightarrow> Some \<lparr>result = res, eventId = None\<rparr>
                     | Text ev \<Rightarrow>
                         if 6 \<le> length ev \<and> length ev \<le> 64
                         then Some \<lparr>result = res, eventId = Some ev\<rparr>
                         else None
                     | Other \<Rightarrow> None)
               else None
           | _ \<Rightarrow> None))"

subsection \<open>pruneExpired, getSessionId, getSessionPromo\<close>

definition pruneMap :: "('v \<Rightarrow> int) \<Rightarrow> int \<Rightarrow> int \<Rightarrow> (string \<rightharpoonup> 'v) \<Rightarrow> (string \<rightharpoonup> 'v)" where
  "pruneMap created ttl now m =
     (\<lambda>k. case m k of
            None \<Rightarrow> None
          | Some entry \<Rightarrow> if now - created entry > ttl then None else Some entry)"

definition pruneExpired :: "int \<Rightarrow> store \<Rightarrow> store" where
  "pruneExpired now st =
     st\<lparr>processedEvents := pruneMap eventCreatedAt EVENT_TTL_MS now (processedEvents st),
        issuedCodes := pruneMap codeCreatedAt PROMO_TTL_MS now (issuedCodes st),
        issuedBySession := pruneMap sessionCreatedAt PROMO_TTL_MS now (issuedBySession st)\<rparr>"

text \<open>A string or \<^verbatim>\<open>null\<close>/\<^verbatim>\<open>undefined\<close> used as a condition: the empty string is falsy.\<close>

definition truthy :: "string option \<Rightarrow> bool" where
  "truthy v = (case v of None \<Rightarrow> False | Some s \<Rightarrow> s \<noteq> [])"

text \<open>The session id and the cookie set on the response, if one is set.\<close>

definition getSessionId :: "request \<Rightarrow> string \<times> string option" where
  "getSessionId rq =
     (if truthy (cookieSid rq) then (the (cookieSid rq), None)
      else (randomUUID rq, Some (randomUUID rq)))"

definition getSessionPromo :: "int \<Rightarrow> string \<Rightarrow> store \<Rightarrow> string option \<times> store" where
  "getSessionPromo now sessionId st =
     (case issuedBySession st sessionId of
        None \<Rightarrow> (None, st)
      | Some entry \<Rightarrow>
          let age = now - sessionCreatedAt entry in
          if age > PROMO_TTL_MS
          then (None, st\<lparr>issuedBySession := (issuedBySession st)(sessionId := None)\<rparr>)
          else if age < SESSION_COOLDOWN_MS then (Some (sessionCode entry), st)
          else (None, st))"

subsection \<open>generateUniquePromoCode\<close>

text \<open>\<^verbatim>\<open>String(n)\<close> for a natural number: its decimal digits.\<close>

fun String_of :: "nat \<Rightarrow> string" where
  "String_of n =
     (if n < 10 then [''0123456789'' ! n]
      else String_of (n div 10) @ [''0123456789'' ! (n mod 10)])"

declare String_of.simps [simp del]

text \<open>
  The loop makes at most 20 draws, the \<open>i\<close>-th being the next one; \<open>None\<close> is the
  \<^verbatim>\<open>throw\<close> after the loop.
\<close>

fun generateLoop :: "nat \<Rightarrow> nat \<Rightarrow> (nat \<Rightarrow> nat) \<Rightarrow> (string \<rightharpoonup> codeEntry) \<Rightarrow> string option" where
  "generateLoop 0 i draw codes = None"
| "generateLoop (Suc left) i draw codes =
     (let c = String_of (draw i) in
      if codes c = None then Some c else generateLoop left (i + 1) draw codes)"

definition generateUniquePromoCode :: "(nat \<Rightarrow> nat) \<Rightarrow> (string \<rightharpoonup> codeEntry) \<Rightarrow> string option" where
  "generateUniquePromoCode draw codes = generateLoop 20 0 draw codes"

subsection \<open>queueTelegramMessage\<close>

definition lossText :: string where
  "lossText =
     [CHR 0xD0, CHR 0xBF, CHR 0xD1, CHR 0x80, CHR 0xD0, CHR 0xBE, CHR 0xD0, CHR 0xB8,
      CHR 0xD0, CHR 0xB3, CHR 0xD1, CHR 0x80, CHR 0xD1, CHR 0x8B, CHR 0xD1, CHR 0x88]"

definition winTextPrefix :: string where
  "winTextPrefix =
     [CHR 0xD0, CHR 0x9F, CHR 0xD0, CHR 0xBE, CHR 0xD0, CHR 0xB1, CHR 0xD0, CHR 0xB5,
      CHR 0xD0, CHR 0xB4, CHR 0xD0, CHR 0xB0, CHR 0x21, CHR 0x20, CHR 0xD0, CHR 0x9F,
      CHR 0xD1, CHR 0x80, CHR 0xD0, CHR 0xBE, CHR 0xD0, CHR 0xBC, CHR 0xD0, CHR 0xBE,
      CHR 0xD0, CHR 0xBA, CHR 0xD0, CHR 0xBE, CHR 0xD0, CHR 0xB4, CHR 0x20, CHR 0xD0,
      CHR 0xB2, CHR 0xD1, CHR 0x8B, CHR 0xD0, CHR 0xB4, CHR 0xD0, CHR 0xB0, CHR 0xD0,
      CHR 0xBD, CHR 0x3A]"

definition queueTelegramMessage :: "string option \<Rightarrow> store \<Rightarrow> store" where
  "queueTelegramMessage text st =
     (if \<not> truthy text then st else st\<lparr>queued := queued st @ [the text]\<rparr>)"

subsection \<open>The handler of POST /api/result\<close>

definition okPayload :: payload where
  "okPayload = \<lparr>status = ''ok'', code = None, message = None\<rparr>"

definition errorPayload :: "string \<Rightarrow> payload" where
  "errorPayload msg = \<lparr>status = ''error'', code = None, message = Some msg\<rparr>"

text \<open>
  The body of the \<^verbatim>\<open>try\<close> block up to the point where the payload and the text for
  Telegram are known. \<open>Inl\<close> is the exception of \<^verbatim>\<open>generateUniquePromoCode\<close>, with the
  store as it is when the exception is thrown.
\<close>

definition computeResult ::
  "request \<Rightarrow> parsedData \<Rightarrow> string \<Rightarrow> store \<Rightarrow> store + (payload \<times> string option \<times> store)" where
  "computeResult rq parsed sessionId st =
     (if result parsed = ''win'' then
        (case getSessionPromo (nowPromo rq) sessionId st of
           (existingCode, st1) \<Rightarrow>
             if truthy existingCode
             then Inr (okPayload\<lparr>code := existingCode\<rparr>, None, st1)
             else
               (case generateUniquePromoCode (randomInt rq) (issuedCodes st1) of
                  None \<Rightarrow> Inl st1
                | Some c \<Rightarrow>
                    let createdAt = nowMint rq;
                        st2 = st1\<lparr>issuedCodes := (issuedCodes st1)
                                (c \<mapsto> \<lparr>codeCreatedAt = createdAt, codeSessionId = sessionId,
                                       redeemed = False\<rparr>)\<rparr>;
                        st3 = st2\<lparr>issuedBySession := (issuedBySession st2)
                                (sessionId \<mapsto> \<lparr>sessionCode = c, sessionCreatedAt = createdAt\<rparr>)\<rparr>
                    in Inr (okPayload\<lparr>code := Some c\<rparr>, Some (winTextPrefix @ c), st3)))
      else if result parsed = ''loss'' then Inr (okPayload, Some lossText, st)
      else Inr (okPayload, None, st))"

definition postApiResult :: "request \<Rightarrow> store \<Rightarrow> httpResponse \<times> store" where
  "postApiResult rq st =
     (case RESULT_SCHEMA_safeParse (reqBody rq) of
        None \<Rightarrow>
          (\<lparr>httpStatus = 400, body = errorPayload ''Invalid payload'', setCookie = None\<rparr>, st)
      | Some parsed \<Rightarrow>
          let st1 = pruneExpired (nowPrune rq) st;
              (sessionId, cookie) = getSessionId rq;
              cached = (if truthy (eventId parsed)
                        then processedEvents st1 (the (eventId parsed)) else None)
          in case cached of
               Some entry \<Rightarrow> (\<lparr>httpStatus = 200, body = response entry, setCookie = cookie\<rparr>, st1)
             | None \<Rightarrow>
                 (case computeResult rq parsed sessionId st1 of
                    Inl st2 \<Rightarrow>
                      (\<lparr>httpStatus = 500, body = errorPayload ''Internal error'',
                        setCookie = cookie\<rparr>, st2)
                  | Inr (responsePayload, telegramMessage, st2) \<Rightarrow>
                      let st3 = (if truthy (eventId parsed)
                                 then st2\<lparr>processedEvents := (processedEvents st2)
                                        (the (eventId parsed) \<mapsto>
                                           \<lparr>eventCreatedAt = nowEvent rq,
                                            response = responsePayload\<rparr>)\<rparr>
                                 else st2)
                      in (\<lparr>httpStatus = 200, body = responsePayload, setCookie = cookie\<rparr>,
                          queueTelegramMessage telegramMessage st3)))"

section \<open>Notions the properties are stated with\<close>

text \<open>
  The mark shared by the three cells of a line of a nine-cell board, if they share one.
\<close>

definition lineMark :: "board \<Rightarrow> nat list \<Rightarrow> mark option" where
  "lineMark b line =
     (case b ! (line ! 0) of
        None \<Rightarrow> None
      | Some m \<Rightarrow> if b ! (line ! 1) = Some m \<and> b ! (line ! 2) = Some m then Some m else None)"

definition drawOutcome :: outcome where
  "drawOutcome = \<lparr>winner = None, combo = None, isDraw = True\<rparr>"

definition winOutcome :: "mark \<Rightarrow> nat list \<Rightarrow> outcome" where
  "winOutcome m line = \<lparr>winner = Some m, combo = Some line, isDraw = False\<rparr>"

text \<open>The empty cells of a board, and whether a depth cap is set and reached.\<close>

definition emptyCells :: "board \<Rightarrow> nat set" where
  "emptyCells b = {i. i < length b \<and> b ! i = None}"

definition capped :: "int option \<Rightarrow> int \<Rightarrow> bool" where
  "capped md d = (\<exists>cap. md = Some cap \<and> cap \<le> d)"

text \<open>
  The score \<^verbatim>\<open>getBestMove\<close> gives to an empty cell: the value of \<^verbatim>\<open>minimax\<close> at
  depth 0, the player to move, on the board with the computer's mark in that cell.
\<close>

definition moveScore :: "board \<Rightarrow> int option \<Rightarrow> nat \<Rightarrow> jsnum" where
  "moveScore b md j = fst (minimax (b[j := Some O_mark]) 0 False md)"

text \<open>How many cells of a line hold a given content, and what a line adds to the score.\<close>

definition countIn :: "board \<Rightarrow> nat list \<Rightarrow> cell \<Rightarrow> nat" where
  "countIn b line v = length (filter (\<lambda>i. b ! i = v) line)"

definition lineScore :: "board \<Rightarrow> nat list \<Rightarrow> int" where
  "lineScore b line = scoreCombo b line 0"

text \<open>
  The game the controller runs, with the computer at the hard difficulty: from a board on
  which the computer is to move, the computer places its mark in the cell \<open>getAiMove\<close>
  returns; as long as \<open>evaluateBoard\<close> returns \<^verbatim>\<open>null\<close> the player then marks any empty
  cell and the computer answers in the same way. The flag tells whether the computer is
  to move on the board reached.
\<close>

inductive hardPlay :: "board \<Rightarrow> bool \<Rightarrow> board \<Rightarrow> bool" for b where
  computer_first:
    "fst (getAiMove random1 random2 b ''hard'') = Some m
     \<Longrightarrow> hardPlay b False (b[m := Some O_mark])"
| player_move:
    "hardPlay b False c \<Longrightarrow> evaluateBoard c = None \<Longrightarrow> i < length c \<Longrightarrow> c ! i = None
     \<Longrightarrow> hardPlay b True (c[i := Some X_mark])"
| computer_reply:
    "hardPlay b True p \<Longrightarrow> evaluateBoard p = None
     \<Longrightarrow> fst (getAiMove random1 random2 p ''hard'') = Some m
     \<Longrightarrow> hardPlay b False (p[m := Some O_mark])"

text \<open>The player has won on a board.\<close>

definition playerWon :: "board \<Rightarrow> bool" where
  "playerWon b = (case evaluateBoard b of Some outc \<Rightarrow> winner outc = Some X_mark | None \<Rightarrow> False)"

text \<open>
  The player can force a win: the board is won by the player, or the game goes on and
  every move of the computer (when the computer is to move), respectively some move of
  the player (when the player is to move), leads to a board from which the player can
  force a win. A board on which the computer is to move and for which this holds is a
  position the computer has already lost.
\<close>

function playerForcesWin :: "bool \<Rightarrow> board \<Rightarrow> bool" where
  "playerForcesWin computerToMove b =
     (case evaluateBoard b of
        Some outc \<Rightarrow> winner outc = Some X_mark
      | None \<Rightarrow>
          if computerToMove
          then list_all
                 (\<lambda>i. if b ! i = None then playerForcesWin False (b[i := Some O_mark]) else True)
                 [0..<length b]
          else list_ex
                 (\<lambda>i. if b ! i = None then playerForcesWin True (b[i := Some X_mark]) else False)
                 [0..<length b])"
  by pat_completeness auto

termination
proof -
  have fill: "empties (b[i := Some m]) < empties b" if "i < length b" and "b ! i = None"
    for b :: board and i m
    using that
  proof (induction b arbitrary: i)
    case Nil
    then show ?case by simp
  next
    case (Cons c b)
    show ?case
    proof (cases i)
      case 0
      with Cons.prems show ?thesis by (simp add: empties_def)
    next
      case (Suc j)
      with Cons.prems have "empties (b[j := Some m]) < empties b"
        by (intro Cons.IH) simp_all
      with Suc show ?thesis by (simp add: empties_def)
    qed
  qed
  show ?thesis
  proof (relation "measure (\<lambda>(computerToMove, b). empties b)", goal_cases)
    case 1
    show ?case by simp
  next
    case (2 computerToMove b i)
    then show ?case by (simp add: fill)
  next
    case (3 computerToMove b i)
    then show ?case by (simp add: fill)
  qed
qed

text \<open>
  The store before any request, and whether a parsed report is answered from the
  idempotency cache: it carries an event id for which the cache, once pruned at the time
  of the request, holds an entry.
\<close>

definition emptyStore :: store where
  "emptyStore =
     \<lparr>issuedBySession = Map.empty, issuedCodes = Map.empty, processedEvents = Map.empty,
      queued = []\<rparr>"

definition servedFromCache :: "request \<Rightarrow> parsedData \<Rightarrow> store \<Rightarrow> bool" where
  "servedFromCache rq parsed st =
     (case eventId parsed of
        None \<Rightarrow> False
      | Some ev \<Rightarrow> processedEvents (pruneExpired (nowPrune rq) st) ev \<noteq> None)"

text \<open>
  A report for the examples: the result, the event id field, the session cookie, one time
  for every \<^verbatim>\<open>Date.now()\<close> of the request and one number for every random draw.
\<close>

definition reportAt :: "string \<Rightarrow> jsonField \<Rightarrow> string \<Rightarrow> int \<Rightarrow> nat \<Rightarrow> request" where
  "reportAt res ev sid now draw =
     \<lparr>reqBody = Fields (Text res) ev, cookieSid = Some sid, nowPrune = now, nowPromo = now,
      nowMint = now, nowEvent = now, randomUUID = ''00000000-0000-4000-8000-000000000000'',
      randomInt = (\<lambda>i. draw)\<rparr>"

text \<open>
  The stores the server reaches: the empty store it starts with, and the store after any
  request handled in a store it has reached.
\<close>

inductive reachableStore :: "store \<Rightarrow> bool" where
  at_start: "reachableStore emptyStore"
| after_request: "reachableStore st \<Longrightarrow> reachableStore (snd (postApiResult rq st))"

section \<open>The search: board restored, value of a position\<close>

declare minimax.simps [simp del]

lemma search_restores_board:
  "snd (minimax cb d m md) = cb"
  "snd (maximizeEach ixs cb1 d1 md1 best1) = cb1"
  "snd (minimizeEach ixs2 cb2 d2 md2 best2) = cb2"
proof (induct cb d m md and ixs cb1 d1 md1 best1 and ixs2 cb2 d2 md2 best2
       rule: minimax_maximizeEach_minimizeEach.induct)
  case (1 currentBoard depth isMaximizing maxDepth)
  then show ?case
    by (auto simp add: minimax.simps split: option.split)
next
  case (2 currentBoard depth maxDepth bestScore)
  show ?case by simp
next
  case (3 index rest currentBoard depth maxDepth bestScore)
  show ?case
  proof (cases "index < length currentBoard \<and> currentBoard ! index = None")
    case True
    obtain s y where sy:
      "(s, y) = minimax (currentBoard[index := Some O_mark]) (depth + 1) False maxDepth"
      by (metis surj_pair)
    from 3(1) True sy have y: "y = currentBoard[index := Some O_mark]"
      by (metis snd_conv)
    have "y[index := None] = currentBoard"
      using y True by (simp add: list_update_same_conv)
    with 3(2)[OF True sy] True sy[symmetric] show ?thesis by simp
  next
    case False
    with 3(3) show ?thesis by auto
  qed
next
  case (4 currentBoard depth maxDepth bestScore)
  show ?case by simp
next
  case (5 index rest currentBoard depth maxDepth bestScore)
  show ?case
  proof (cases "index < length currentBoard \<and> currentBoard ! index = None")
    case True
    obtain s y where sy:
      "(s, y) = minimax (currentBoard[index := Some X_mark]) (depth + 1) True maxDepth"
      by (metis surj_pair)
    from 5(1) True sy have y: "y = currentBoard[index := Some X_mark]"
      by (metis snd_conv)
    have "y[index := None] = currentBoard"
      using y True by (simp add: list_update_same_conv)
    with 5(2)[OF True sy] True sy[symmetric] show ?thesis by simp
  next
    case False
    with 5(3) show ?thesis by auto
  qed
qed

lemma minimax_pair: "minimax cb d m md = (fst (minimax cb d m md), cb)"
  by (metis prod.collapse search_restores_board(1))

lemma undo_fill: "i < length cb \<Longrightarrow> cb ! i = None \<Longrightarrow> cb[i := None] = cb"
  by (simp add: list_update_same_conv)

lemma maximizeEach_fold:
  "fst (maximizeEach ixs cb d md best) =
     fold (\<lambda>i acc. if i < length cb \<and> cb ! i = None
                    then max acc (fst (minimax (cb[i := Some O_mark]) (d + 1) False md))
                    else acc) ixs best"
proof (induction ixs arbitrary: best)
  case Nil
  show ?case by simp
next
  case (Cons i ixs)
  show ?case
  proof (cases "i < length cb \<and> cb ! i = None")
    case True
    then show ?thesis
      using Cons.IH by (simp add: case_prod_beta search_restores_board undo_fill)
  next
    case False
    then show ?thesis using Cons.IH by auto
  qed
qed

lemma minimizeEach_fold:
  "fst (minimizeEach ixs cb d md best) =
     fold (\<lambda>i acc. if i < length cb \<and> cb ! i = None
                    then min acc (fst (minimax (cb[i := Some X_mark]) (d + 1) True md))
                    else acc) ixs best"
proof (induction ixs arbitrary: best)
  case Nil
  show ?case by simp
next
  case (Cons i ixs)
  show ?case
  proof (cases "i < length cb \<and> cb ! i = None")
    case True
    then show ?thesis
      using Cons.IH by (simp add: case_prod_beta search_restores_board undo_fill)
  next
    case False
    then show ?thesis using Cons.IH by auto
  qed
qed

lemma Max_insert_max:
  "finite A \<Longrightarrow> Max (insert a (insert x A)) = Max (insert (max a x) (A :: jsnum set))"
  by (cases "A = {}") (simp_all add: max.assoc)

lemma Min_insert_min:
  "finite A \<Longrightarrow> Min (insert a (insert x A)) = Min (insert (min a x) (A :: jsnum set))"
  by (cases "A = {}") (simp_all add: min.assoc)

lemma fold_max_Max:
  "fold (\<lambda>i acc. if E i then max acc (f i) else acc) ixs (best :: jsnum)
     = Max (insert best (f ` {i \<in> set ixs. E i}))"
proof (induction ixs arbitrary: best)
  case Nil
  show ?case by simp
next
  case (Cons i ixs)
  have fin: "finite (f ` {j \<in> set ixs. E j})" by simp
  show ?case
  proof (cases "E i")
    case True
    then have "{j \<in> set (i # ixs). E j} = insert i {j \<in> set ixs. E j}" by auto
    then have "insert best (f ` {j \<in> set (i # ixs). E j})
                 = insert best (insert (f i) (f ` {j \<in> set ixs. E j}))" by simp
    moreover have "Max (insert best (insert (f i) (f ` {j \<in> set ixs. E j})))
                 = Max (insert (max best (f i)) (f ` {j \<in> set ixs. E j}))"
      using fin by (rule Max_insert_max)
    ultimately show ?thesis using True Cons.IH[of "max best (f i)"] by simp
  next
    case False
    then have "{j \<in> set (i # ixs). E j} = {j \<in> set ixs. E j}" by auto
    with False Cons.IH[of best] show ?thesis by simp
  qed
qed

lemma fold_min_Min:
  "fold (\<lambda>i acc. if E i then min acc (f i) else acc) ixs (best :: jsnum)
     = Min (insert best (f ` {i \<in> set ixs. E i}))"
proof (induction ixs arbitrary: best)
  case Nil
  show ?case by simp
next
  case (Cons i ixs)
  have fin: "finite (f ` {j \<in> set ixs. E j})" by simp
  show ?case
  proof (cases "E i")
    case True
    then have "{j \<in> set (i # ixs). E j} = insert i {j \<in> set ixs. E j}" by auto
    then have "insert best (f ` {j \<in> set (i # ixs). E j})
                 = insert best (insert (f i) (f ` {j \<in> set ixs. E j}))" by simp
    moreover have "Min (insert best (insert (f i) (f ` {j \<in> set ixs. E j})))
                 = Min (insert (min best (f i)) (f ` {j \<in> set ixs. E j}))"
      using fin by (rule Min_insert_min)
    ultimately show ?thesis using True Cons.IH[of "min best (f i)"] by simp
  next
    case False
    then have "{j \<in> set (i # ixs). E j} = {j \<in> set ixs. E j}" by auto
    with False Cons.IH[of best] show ?thesis by simp
  qed
qed


lemma NegInf_least [simp]: "max NegInf (y :: jsnum) = y" "NegInf \<le> y"
  by (cases y; simp add: max_def less_eq_jsnum_def)+

lemma PosInf_greatest [simp]: "min PosInf (y :: jsnum) = y" "y \<le> PosInf"
  by (cases y; simp add: min_def less_eq_jsnum_def)+

lemma Fin_less [simp]: "(Fin a < Fin b) = (a < b)" "(Fin a \<le> Fin b) = (a \<le> b)"
  by (auto simp: less_eq_jsnum_def)

lemma finite_emptyCells [simp]: "finite (emptyCells b)"
  by (simp add: emptyCells_def)

lemma emptyCells_upt: "{i \<in> set [0..<length b]. i < length b \<and> b ! i = None} = emptyCells b"
  by (auto simp: emptyCells_def)

lemma evaluateBoard_None_empty: "evaluateBoard b = None \<Longrightarrow> emptyCells b \<noteq> {}"
  by (auto simp: evaluateBoard_def emptyCells_def list_all_length split: option.splits if_splits)

lemma capped_case: "(case md of Some cap \<Rightarrow> d \<ge> cap | None \<Rightarrow> False) = capped md d"
  by (auto simp: capped_def split: option.splits)

lemma empties_fill: "i \<in> emptyCells b \<Longrightarrow> empties (b[i := Some m]) < empties b"
  unfolding emptyCells_def
proof (induction b arbitrary: i)
  case Nil
  then show ?case by simp
next
  case (Cons c b)
  show ?case
  proof (cases i)
    case 0
    with Cons.prems show ?thesis by (simp add: empties_def)
  next
    case (Suc j)
    with Cons.prems have "empties (b[j := Some m]) < empties b"
      by (intro Cons.IH) simp_all
    with Suc show ?thesis by (simp add: empties_def)
  qed
qed

lemma minimax_terminal:
  "evaluateBoard b = Some outc \<Longrightarrow>
   fst (minimax b d m md) =
     (if isDraw outc then Fin 0
      else if winner outc = Some O_mark then Fin (10 - d) else Fin (d - 10))"
  by (simp add: minimax.simps)

lemma minimax_capped:
  "evaluateBoard b = None \<Longrightarrow> capped md d \<Longrightarrow> fst (minimax b d m md) = Fin (scoreBoard b)"
  by (simp add: minimax.simps capped_case)

lemma minimax_max:
  assumes "evaluateBoard b = None" and "\<not> capped md d"
  shows "fst (minimax b d True md) =
           Max ((\<lambda>i. fst (minimax (b[i := Some O_mark]) (d + 1) False md)) ` emptyCells b)"
proof -
  have ne: "emptyCells b \<noteq> {}" using assms(1) by (rule evaluateBoard_None_empty)
  have "fst (minimax b d True md) = fst (maximizeEach [0..<length b] b d md NegInf)"
    using assms by (simp add: minimax.simps capped_case)
  also have "\<dots> = Max (insert NegInf
       ((\<lambda>i. fst (minimax (b[i := Some O_mark]) (d + 1) False md)) ` emptyCells b))"
    by (simp only: maximizeEach_fold fold_max_Max emptyCells_upt)
  also have "\<dots> = Max ((\<lambda>i. fst (minimax (b[i := Some O_mark]) (d + 1) False md)) ` emptyCells b)"
    using ne by simp
  finally show ?thesis .
qed

lemma minimax_min:
  assumes "evaluateBoard b = None" and "\<not> capped md d"
  shows "fst (minimax b d False md) =
           Min ((\<lambda>i. fst (minimax (b[i := Some X_mark]) (d + 1) True md)) ` emptyCells b)"
proof -
  have ne: "emptyCells b \<noteq> {}" using assms(1) by (rule evaluateBoard_None_empty)
  have "fst (minimax b d False md) = fst (minimizeEach [0..<length b] b d md PosInf)"
    using assms by (simp add: minimax.simps capped_case)
  also have "\<dots> = Min (insert PosInf
       ((\<lambda>i. fst (minimax (b[i := Some X_mark]) (d + 1) True md)) ` emptyCells b))"
    by (simp only: minimizeEach_fold fold_min_Min emptyCells_upt)
  also have "\<dots> = Min ((\<lambda>i. fst (minimax (b[i := Some X_mark]) (d + 1) True md)) ` emptyCells b)"
    using ne by simp
  finally show ?thesis .
qed

lemma minimax_finite: "\<exists>v. fst (minimax b d m md) = Fin v"
proof (induction "empties b" arbitrary: b d m rule: less_induct)
  case less
  show ?case
  proof (cases "evaluateBoard b")
    case (Some outc)
    then show ?thesis by (simp add: minimax_terminal)
  next
    case None
    then have ne: "emptyCells b \<noteq> {}" by (rule evaluateBoard_None_empty)
    show ?thesis
    proof (cases "capped md d")
      case True
      with None show ?thesis by (simp add: minimax_capped)
    next
      case False
      show ?thesis
      proof (cases m)
        case True
        let ?K = "(\<lambda>i. fst (minimax (b[i := Some O_mark]) (d + 1) False md)) ` emptyCells b"
        have "Max ?K \<in> ?K" using ne by (intro Max_in) simp_all
        then obtain i where "i \<in> emptyCells b"
          and "Max ?K = fst (minimax (b[i := Some O_mark]) (d + 1) False md)" by blast
        moreover from this less have "\<exists>v. fst (minimax (b[i := Some O_mark]) (d + 1) False md) = Fin v"
          using empties_fill by blast
        ultimately show ?thesis using True minimax_max[OF None False] by simp
      next
        case m: False
        let ?K = "(\<lambda>i. fst (minimax (b[i := Some X_mark]) (d + 1) True md)) ` emptyCells b"
        have "Min ?K \<in> ?K" using ne by (intro Min_in) simp_all
        then obtain i where "i \<in> emptyCells b"
          and "Min ?K = fst (minimax (b[i := Some X_mark]) (d + 1) True md)" by blast
        moreover from this less have "\<exists>v. fst (minimax (b[i := Some X_mark]) (d + 1) True md) = Fin v"
          using empties_fill by blast
        ultimately show ?thesis using m minimax_min[OF None False] by simp
      qed
    qed
  qed
qed

section \<open>Move selection\<close>

lemma bestMoveEach_step:
  "bestMoveEach (i # rest) cb md best move =
     (if i \<in> emptyCells cb \<and> best < moveScore cb md i
      then bestMoveEach rest cb md (moveScore cb md i) (Some i)
      else bestMoveEach rest cb md best move)"
  by (auto simp: emptyCells_def moveScore_def case_prod_beta search_restores_board undo_fill)

lemma bestMoveEach_board: "snd (bestMoveEach ixs cb md best move) = cb"
proof (induction ixs arbitrary: best move)
  case Nil
  show ?case by simp
next
  case (Cons i ixs)
  then show ?case by (simp only: bestMoveEach_step split: if_splits) simp
qed

lemma bestMoveEach_pick:
  assumes "sorted_wrt (<) ixs"
  shows "if \<forall>i\<in>set ixs. i \<in> emptyCells cb \<longrightarrow> moveScore cb md i \<le> best
         then fst (bestMoveEach ixs cb md best move) = move
         else \<exists>m. fst (bestMoveEach ixs cb md best move) = Some m
                \<and> m \<in> set ixs \<and> m \<in> emptyCells cb \<and> best < moveScore cb md m
                \<and> (\<forall>j\<in>set ixs. j \<in> emptyCells cb \<longrightarrow> moveScore cb md j \<le> moveScore cb md m)
                \<and> (\<forall>j\<in>set ixs. j \<in> emptyCells cb \<and> j < m
                       \<longrightarrow> moveScore cb md j < moveScore cb md m)"
  using assms
proof (induction ixs arbitrary: best move)
  case Nil
  show ?case by simp
next
  case (Cons i ixs)
  from Cons.prems have sorted: "sorted_wrt (<) ixs" and above: "\<forall>j\<in>set ixs. i < j" by simp_all
  show ?case
  proof (cases "i \<in> emptyCells cb \<and> best < moveScore cb md i")
    case True
    note IH = Cons.IH[OF sorted, of "moveScore cb md i" "Some i"]
    show ?thesis
    proof (cases "\<forall>j\<in>set ixs. j \<in> emptyCells cb \<longrightarrow> moveScore cb md j \<le> moveScore cb md i")
      case all: True
      with IH have "fst (bestMoveEach ixs cb md (moveScore cb md i) (Some i)) = Some i" by simp
      with True all above show ?thesis
        by (simp only: bestMoveEach_step) (auto intro!: exI[of _ i])
    next
      case some: False
      with IH obtain m where m: "fst (bestMoveEach ixs cb md (moveScore cb md i) (Some i)) = Some m"
        "m \<in> set ixs" "m \<in> emptyCells cb" "moveScore cb md i < moveScore cb md m"
        "\<forall>j\<in>set ixs. j \<in> emptyCells cb \<longrightarrow> moveScore cb md j \<le> moveScore cb md m"
        "\<forall>j\<in>set ixs. j \<in> emptyCells cb \<and> j < m \<longrightarrow> moveScore cb md j < moveScore cb md m"
        by auto
      have "\<not> (\<forall>j\<in>set (i # ixs). j \<in> emptyCells cb \<longrightarrow> moveScore cb md j \<le> best)"
        using True by auto
      moreover have "best < moveScore cb md m" using True m(4) by auto
      ultimately show ?thesis using True m
        by (simp only: bestMoveEach_step) (auto intro!: exI[of _ m])
    qed
  next
    case False
    note IH = Cons.IH[OF sorted, of best move]
    have step: "bestMoveEach (i # ixs) cb md best move = bestMoveEach ixs cb md best move"
      using False by (simp only: bestMoveEach_step if_False)
    show ?thesis
    proof (cases "\<forall>j\<in>set ixs. j \<in> emptyCells cb \<longrightarrow> moveScore cb md j \<le> best")
      case all: True
      with IH have "fst (bestMoveEach ixs cb md best move) = move" by simp
      moreover have "\<forall>j\<in>set (i # ixs). j \<in> emptyCells cb \<longrightarrow> moveScore cb md j \<le> best"
        using all False by auto
      ultimately show ?thesis unfolding step by simp
    next
      case some: False
      with IH obtain m where m: "fst (bestMoveEach ixs cb md best move) = Some m"
        "m \<in> set ixs" "m \<in> emptyCells cb" "best < moveScore cb md m"
        "\<forall>j\<in>set ixs. j \<in> emptyCells cb \<longrightarrow> moveScore cb md j \<le> moveScore cb md m"
        "\<forall>j\<in>set ixs. j \<in> emptyCells cb \<and> j < m \<longrightarrow> moveScore cb md j < moveScore cb md m"
        by auto
      have i_low: "i \<in> emptyCells cb \<longrightarrow> moveScore cb md i < moveScore cb md m"
        using False m(4) by auto
      have "\<not> (\<forall>j\<in>set (i # ixs). j \<in> emptyCells cb \<longrightarrow> moveScore cb md j \<le> best)"
        using some by auto
      then show ?thesis unfolding step using m i_low
        by (auto intro!: exI[of _ m])
    qed
  qed
qed

lemma moveScore_finite: "\<exists>v. moveScore b md j = Fin v"
  by (simp add: moveScore_def minimax_finite)

lemma getBestMove_pick:
  assumes "emptyCells b \<noteq> {}"
  shows "\<exists>m. fst (getBestMove b md) = Some m \<and> m \<in> emptyCells b
           \<and> (\<forall>j\<in>emptyCells b. moveScore b md j \<le> moveScore b md m)
           \<and> (\<forall>j\<in>emptyCells b. j < m \<longrightarrow> moveScore b md j < moveScore b md m)"
proof -
  from assms obtain i where i: "i \<in> emptyCells b" by blast
  then have "i \<in> set [0..<length b]" by (simp add: emptyCells_def)
  moreover have "\<not> moveScore b md i \<le> NegInf"
    using moveScore_finite[of b md i] by (auto simp: less_eq_jsnum_def)
  ultimately have neg:
    "\<not> (\<forall>i\<in>set [0..<length b]. i \<in> emptyCells b \<longrightarrow> moveScore b md i \<le> NegInf)"
    using i by blast
  have "sorted_wrt (<) [0..<length b]" by simp
  from bestMoveEach_pick[OF this, of b md NegInf None]
  have "\<exists>m. fst (bestMoveEach [0..<length b] b md NegInf None) = Some m
                \<and> m \<in> set [0..<length b] \<and> m \<in> emptyCells b \<and> NegInf < moveScore b md m
                \<and> (\<forall>j\<in>set [0..<length b]. j \<in> emptyCells b \<longrightarrow> moveScore b md j \<le> moveScore b md m)
                \<and> (\<forall>j\<in>set [0..<length b]. j \<in> emptyCells b \<and> j < m
                       \<longrightarrow> moveScore b md j < moveScore b md m)"
    by (simp only: neg if_False)
  then obtain m where m: "fst (bestMoveEach [0..<length b] b md NegInf None) = Some m"
     "m \<in> emptyCells b"
     "\<forall>j\<in>set [0..<length b]. j \<in> emptyCells b \<longrightarrow> moveScore b md j \<le> moveScore b md m"
     "\<forall>j\<in>set [0..<length b]. j \<in> emptyCells b \<and> j < m \<longrightarrow> moveScore b md j < moveScore b md m"
    by blast
  have inr: "\<forall>j\<in>emptyCells b. j \<in> set [0..<length b]" by (simp add: emptyCells_def)
  from m(3) inr have "\<forall>j\<in>emptyCells b. moveScore b md j \<le> moveScore b md m" by blast
  moreover from m(4) inr have "\<forall>j\<in>emptyCells b. j < m \<longrightarrow> moveScore b md j < moveScore b md m"
    by blast
  ultimately show ?thesis unfolding getBestMove_def using m(1,2) by blast
qed

lemma getBestMove_full:
  assumes "emptyCells b = {}"
  shows "fst (getBestMove b md) = None"
  using bestMoveEach_pick[of "[0..<length b]" b md NegInf None] assms
  by (simp add: getBestMove_def)

lemma getBestMove_board: "snd (getBestMove b md) = b"
  by (simp add: getBestMove_def bestMoveEach_board)

section \<open>The board evaluator\<close>

lemma winningCombos_bound: "c \<in> set winningCombos \<Longrightarrow> c ! 0 < 9 \<and> c ! 1 < 9 \<and> c ! 2 < 9"
  by (auto simp: winningCombos_def)

lemma findWinner_find:
  assumes "length b = 9" and "set cs \<subseteq> set winningCombos"
  shows "findWinner b cs =
     (case find (\<lambda>c. lineMark b c \<noteq> None) cs of
        None \<Rightarrow> None
      | Some c \<Rightarrow> Some (winOutcome (the (lineMark b c)) c))"
  using assms(2)
proof (induction cs)
  case Nil
  then show ?case by simp
next
  case (Cons c cs)
  then have "c ! 0 < 9 \<and> c ! 1 < 9 \<and> c ! 2 < 9" by (intro winningCombos_bound) simp
  with Cons assms(1) show ?case
    by (auto simp: lineMark_def cellAt_def winOutcome_def Let_def split: option.splits)
qed


lemma find_first:
  "(\<forall>l\<in>set before. \<not> P l) \<Longrightarrow> P x \<Longrightarrow> find P (before @ x # after) = Some x"
  by (induction before) auto

text \<open>
  Claim C1. On a board of nine cells \<open>evaluateBoard\<close> goes through the eight lines in the
  order rows, columns, diagonals. It returns the win of the first line whose three cells
  hold the same mark, with that mark and that line. When no line is won it returns the
  draw if no cell is empty, and \<^verbatim>\<open>null\<close> if some cell is.
\<close>

theorem evaluateBoard_first_line:
  assumes "length b = 9"
  shows "winningCombos =
           [[0, 1, 2], [3, 4, 5], [6, 7, 8], [0, 3, 6], [1, 4, 7], [2, 5, 8], [0, 4, 8], [2, 4, 6]]
       \<and> (\<forall>before line after m.
             winningCombos = before @ line # after
             \<and> (\<forall>l\<in>set before. lineMark b l = None) \<and> lineMark b line = Some m
           \<longrightarrow> evaluateBoard b = Some (winOutcome m line))
       \<and> ((\<forall>l\<in>set winningCombos. lineMark b l = None) \<and> None \<notin> set b
           \<longrightarrow> evaluateBoard b = Some drawOutcome)
       \<and> ((\<forall>l\<in>set winningCombos. lineMark b l = None) \<and> None \<in> set b
           \<longrightarrow> evaluateBoard b = None)"
proof (intro conjI allI impI)
  show "winningCombos =
     [[0, 1, 2], [3, 4, 5], [6, 7, 8], [0, 3, 6], [1, 4, 7], [2, 5, 8], [0, 4, 8], [2, 4, 6]]"
    by (simp add: winningCombos_def)
next
  fix before line after m
  assume h: "winningCombos = before @ line # after
             \<and> (\<forall>l\<in>set before. lineMark b l = None) \<and> lineMark b line = Some m"
  then have "find (\<lambda>c. lineMark b c \<noteq> None) winningCombos = Some line"
    using find_first[of before "\<lambda>c. lineMark b c \<noteq> None" line after] by simp
  with h show "evaluateBoard b = Some (winOutcome m line)"
    by (simp add: evaluateBoard_def findWinner_find[OF assms subset_refl])
next
  assume h: "(\<forall>l\<in>set winningCombos. lineMark b l = None) \<and> None \<notin> set b"
  then have "find (\<lambda>c. lineMark b c \<noteq> None) winningCombos = None"
    by (simp add: find_None_iff)
  moreover have "list_all (\<lambda>v. v \<noteq> None) b"
    unfolding list_all_iff using h by metis
  ultimately show "evaluateBoard b = Some drawOutcome"
    by (simp add: evaluateBoard_def findWinner_find[OF assms subset_refl] drawOutcome_def)
next
  assume h: "(\<forall>l\<in>set winningCombos. lineMark b l = None) \<and> None \<in> set b"
  then have "find (\<lambda>c. lineMark b c \<noteq> None) winningCombos = None"
    by (simp add: find_None_iff)
  moreover have "\<not> list_all (\<lambda>v. v \<noteq> None) b"
    unfolding list_all_iff using h by metis
  ultimately show "evaluateBoard b = None"
    by (simp add: evaluateBoard_def findWinner_find[OF assms subset_refl])
qed

text \<open>
  The theorem at three boards: the first column won by the player while no row is won,
  the drawn board of the test suite, and the same board with its last cell empty.
\<close>

theorem evaluateBoard_first_line_witness:
  "evaluateBoard [Some X_mark, Some O_mark, Some O_mark, Some X_mark, None, None, Some X_mark, None, None]
     = Some (winOutcome X_mark [0, 3, 6])
   \<and> evaluateBoard [Some X_mark, Some O_mark, Some X_mark, Some X_mark, Some O_mark, Some O_mark, Some O_mark, Some X_mark, Some X_mark]
     = Some drawOutcome
   \<and> evaluateBoard [Some X_mark, Some O_mark, Some X_mark, Some X_mark, Some O_mark, Some O_mark, Some O_mark, Some X_mark, None]
     = None"
proof -
  let ?w = "[Some X_mark, Some O_mark, Some O_mark, Some X_mark, None, None, Some X_mark, None, None]"
  let ?d = "[Some X_mark, Some O_mark, Some X_mark, Some X_mark, Some O_mark, Some O_mark, Some O_mark, Some X_mark, Some X_mark]"
  let ?g = "[Some X_mark, Some O_mark, Some X_mark, Some X_mark, Some O_mark, Some O_mark, Some O_mark, Some X_mark, None]"
  have a: "winningCombos = [[0, 1, 2], [3, 4, 5], [6, 7, 8]] @ [0, 3, 6] # [[1, 4, 7], [2, 5, 8], [0, 4, 8], [2, 4, 6]]
            \<and> (\<forall>l\<in>set [[0, 1, 2], [3, 4, 5], [6, 7, 8]]. lineMark ?w l = None)
            \<and> lineMark ?w [0, 3, 6] = Some X_mark"
    by (simp add: winningCombos_def lineMark_def)
  have d: "(\<forall>l\<in>set winningCombos. lineMark ?d l = None) \<and> None \<notin> set ?d"
    by (simp add: winningCombos_def lineMark_def)
  have g: "(\<forall>l\<in>set winningCombos. lineMark ?g l = None) \<and> None \<in> set ?g"
    by (simp add: winningCombos_def lineMark_def)
  have "length ?w = 9" by simp
  from evaluateBoard_first_line[OF this]
  have "winningCombos = [[0, 1, 2], [3, 4, 5], [6, 7, 8]] @ [0, 3, 6] # [[1, 4, 7], [2, 5, 8], [0, 4, 8], [2, 4, 6]]
            \<and> (\<forall>l\<in>set [[0, 1, 2], [3, 4, 5], [6, 7, 8]]. lineMark ?w l = None)
            \<and> lineMark ?w [0, 3, 6] = Some X_mark
        \<longrightarrow> evaluateBoard ?w = Some (winOutcome X_mark [0, 3, 6])"
    by blast
  with a have "evaluateBoard ?w = Some (winOutcome X_mark [0, 3, 6])" by blast
  moreover have "evaluateBoard ?d = Some drawOutcome"
    using evaluateBoard_first_line[of ?d] d by simp
  moreover have "evaluateBoard ?g = None"
    using evaluateBoard_first_line[of ?g] g by simp
  ultimately show ?thesis by simp
qed

section \<open>The hard difficulty never loses\<close>

declare playerForcesWin.simps [simp del]

lemma findWinner_outcome:
  "findWinner b cs = Some outc \<Longrightarrow> \<not> isDraw outc \<and> winner outc \<noteq> None"
proof (induction cs)
  case Nil
  then show ?case by simp
next
  case (Cons c cs)
  define won where "won = (cellAt b (c ! 0) \<noteq> None \<and> cellAt b (c ! 0) = cellAt b (c ! 1)
                 \<and> cellAt b (c ! 0) = cellAt b (c ! 2))"
  have step: "findWinner b (c # cs) =
      (if won then Some \<lparr>winner = cellAt b (c ! 0), combo = Some c, isDraw = False\<rparr>
       else findWinner b cs)"
    unfolding won_def by (simp only: findWinner.simps Let_def)
  show ?case
  proof (cases won)
    case True
    with Cons.prems step
    have "outc = \<lparr>winner = cellAt b (c ! 0), combo = Some c, isDraw = False\<rparr>" by simp
    moreover from True have "cellAt b (c ! 0) \<noteq> None" unfolding won_def by blast
    ultimately show ?thesis by simp
  next
    case False
    with Cons.prems step have "findWinner b cs = Some outc" by simp
    then show ?thesis by (rule Cons.IH)
  qed
qed

lemma evaluateBoard_outcome:
  assumes "evaluateBoard b = Some outc"
  shows "(isDraw outc \<and> winner outc = None) \<or> (\<not> isDraw outc \<and> winner outc \<noteq> None)"
proof (cases "findWinner b winningCombos")
  case None
  with assms show ?thesis by (auto simp: evaluateBoard_def split: if_splits)
next
  case (Some res)
  with assms findWinner_outcome[OF Some] show ?thesis by (simp add: evaluateBoard_def)
qed

lemma forces_terminal:
  "evaluateBoard b = Some outc \<Longrightarrow> playerForcesWin t b = (winner outc = Some X_mark)"
  by (simp add: playerForcesWin.simps)

lemma forces_computer:
  "evaluateBoard b = None \<Longrightarrow>
   playerForcesWin True b = (\<forall>i\<in>emptyCells b. playerForcesWin False (b[i := Some O_mark]))"
  by (subst playerForcesWin.simps) (auto simp: list_all_iff emptyCells_def)

lemma forces_player:
  "evaluateBoard b = None \<Longrightarrow>
   playerForcesWin False b = (\<exists>i\<in>emptyCells b. playerForcesWin True (b[i := Some X_mark]))"
  by (subst playerForcesWin.simps) (auto simp: list_ex_iff emptyCells_def)

lemma not_capped_None [simp]: "\<not> capped None d"
  by (simp add: capped_def)

lemma minimax_sign:
  "d + int (empties b) < 10 \<Longrightarrow>
   (fst (minimax b d isMax None) < Fin 0) = playerForcesWin isMax b"
proof (induction "empties b" arbitrary: b d isMax rule: less_induct)
  case less
  show ?case
  proof (cases "evaluateBoard b")
    case (Some outc)
    from less.prems have d: "d < 10" by simp
    from evaluateBoard_outcome[OF Some] show ?thesis
    proof
      assume "isDraw outc \<and> winner outc = None"
      with Some show ?thesis by (simp add: minimax_terminal forces_terminal)
    next
      assume w: "\<not> isDraw outc \<and> winner outc \<noteq> None"
      then obtain mk where mk: "winner outc = Some mk" by auto
      show ?thesis
      proof (cases mk)
        case X_mark
        with Some w mk d show ?thesis by (simp add: minimax_terminal forces_terminal)
      next
        case O_mark
        with Some w mk d show ?thesis by (simp add: minimax_terminal forces_terminal)
      qed
    qed
  next
    case None
    then have ne: "emptyCells b \<noteq> {}" by (rule evaluateBoard_None_empty)
    have kid: "(fst (minimax (b[i := Some mk]) (d + 1) t None) < Fin 0)
                 = playerForcesWin t (b[i := Some mk])"
      if "i \<in> emptyCells b" for i mk t
    proof (rule less.hyps)
      show "empties (b[i := Some mk]) < empties b" using that by (rule empties_fill)
      then show "d + 1 + int (empties (b[i := Some mk])) < 10" using less.prems by simp
    qed
    show ?thesis
    proof (cases isMax)
      case True
      have "(fst (minimax b d True None) < Fin 0)
              = (\<forall>a\<in>(\<lambda>i. fst (minimax (b[i := Some O_mark]) (d + 1) False None)) ` emptyCells b.
                   a < Fin 0)"
        using ne by (simp only: minimax_max[OF None not_capped_None]) (simp add: Max_less_iff)
      also have "\<dots> = (\<forall>i\<in>emptyCells b. playerForcesWin False (b[i := Some O_mark]))"
        using kid by simp
      finally show ?thesis using True None by (simp add: forces_computer)
    next
      case False
      have "(fst (minimax b d False None) < Fin 0)
              = (\<exists>a\<in>(\<lambda>i. fst (minimax (b[i := Some X_mark]) (d + 1) True None)) ` emptyCells b.
                   a < Fin 0)"
        using ne by (simp only: minimax_min[OF None not_capped_None]) (simp add: Min_less_iff)
      also have "\<dots> = (\<exists>i\<in>emptyCells b. playerForcesWin True (b[i := Some X_mark]))"
        using kid by simp
      finally show ?thesis using False None by (simp add: forces_player)
    qed
  qed
qed

lemma empties_le_length: "empties b \<le> length b"
  by (simp add: empties_def)

lemma hard_move_safe:
  assumes len: "length b = 9" and go: "evaluateBoard b = None"
    and safe: "\<not> playerForcesWin True b"
    and mv: "fst (getAiMove random1 random2 b ''hard'') = Some m"
  shows "m \<in> emptyCells b \<and> \<not> playerForcesWin False (b[m := Some O_mark])"
proof -
  have hard: "fst (getAiMove random1 random2 b ''hard'') = fst (getBestMove b None)"
    by (simp add: getAiMove_def difficultySettings_def)
  have ne: "emptyCells b \<noteq> {}" using go by (rule evaluateBoard_None_empty)
  from getBestMove_pick[OF ne, of None] mv hard
  have m: "m \<in> emptyCells b" and best: "\<forall>j\<in>emptyCells b. moveScore b None j \<le> moveScore b None m"
    by auto
  have sign: "(moveScore b None j < Fin 0) = playerForcesWin False (b[j := Some O_mark])" for j
  proof -
    have "empties (b[j := Some O_mark]) \<le> 9"
      using empties_le_length[of "b[j := Some O_mark]"] len by simp
    then show ?thesis unfolding moveScore_def by (intro minimax_sign) simp
  qed
  from safe go obtain j where j: "j \<in> emptyCells b" "\<not> playerForcesWin False (b[j := Some O_mark])"
    by (auto simp: forces_computer)
  then have "\<not> moveScore b None j < Fin 0" by (simp add: sign)
  moreover from best j(1) have "moveScore b None j \<le> moveScore b None m" by blast
  ultimately have "\<not> moveScore b None m < Fin 0" by auto
  with m show ?thesis by (simp add: sign)
qed

lemma hardPlay_invariant:
  assumes "length b = 9" "evaluateBoard b = None" "\<not> playerForcesWin True b"
    and "hardPlay b t c"
  shows "length c = 9 \<and> \<not> playerForcesWin t c"
  using assms(4)
proof (induction rule: hardPlay.induct)
  case (computer_first random1 random2 m)
  with hard_move_safe[OF assms(1-3)] assms(1) show ?case by simp
next
  case (player_move c i)
  then have "i \<in> emptyCells c" by (simp add: emptyCells_def)
  with player_move show ?case by (auto simp: forces_player)
next
  case (computer_reply p random1 random2 m)
  then have "length p = 9" "\<not> playerForcesWin True p" by simp_all
  from hard_move_safe[OF this(1) computer_reply(2) this(2) computer_reply(3)] \<open>length p = 9\<close>
  show ?case by simp
qed

lemma forces_if_won: "playerWon c \<Longrightarrow> playerForcesWin t c"
  by (auto simp: playerWon_def forces_terminal split: option.splits)

text \<open>
  Claim C2. Let the computer be to move on a board of nine cells on which the game is not
  over and from which the player cannot force a win (the computer has not already lost).
  Then on no board reached by the moves of the hard computer and any moves of the player
  has the player won.
\<close>

theorem hard_never_loses:
  assumes "length b = 9" and "evaluateBoard b = None" and "\<not> playerForcesWin True b"
    and "hardPlay b t c"
  shows "\<not> playerWon c"
  using hardPlay_invariant[OF assms] forces_if_won by blast

section \<open>The move chosen\<close>

lemma available_cells:
  "filter (\<lambda>v. v \<noteq> None)
     (map (\<lambda>(v, index). if v \<noteq> None then None else Some index) (zip b [0..<length b]))
   = map Some (filter (\<lambda>i. b ! i = None) [0..<length b])"
proof -
  let ?g = "\<lambda>i. if b ! i \<noteq> None then None else Some i"
  have "zip b [0..<length b] = map (\<lambda>i. (b ! i, i)) [0..<length b]"
    by (intro nth_equalityI) simp_all
  then have "map (\<lambda>(v, index). if v \<noteq> None then None else Some index) (zip b [0..<length b])
               = map ?g [0..<length b]"
    by simp
  moreover have "filter (\<lambda>v. v \<noteq> None) (map ?g [0..<length b])
               = map ?g (filter (\<lambda>i. b ! i = None) [0..<length b])"
    unfolding filter_map by (rule arg_cong[where f = "map ?g"], rule filter_cong) auto
  moreover have "map ?g (filter (\<lambda>i. b ! i = None) [0..<length b])
               = map Some (filter (\<lambda>i. b ! i = None) [0..<length b])"
    by (rule map_cong) auto
  ultimately show ?thesis by (simp only:)
qed

lemma getRandomMove_none:
  assumes "0 \<le> r" "r < 1"
  shows "(getRandomMove r b = None) = (emptyCells b = {})"
proof -
  define av where "av = filter (\<lambda>i. b ! i = None) [0..<length b]"
  have eq: "getRandomMove r b =
          (if map Some av = [] then None
           else if 0 \<le> \<lfloor>r * real (length (map Some av))\<rfloor>
                   \<and> nat \<lfloor>r * real (length (map Some av))\<rfloor> < length (map Some av)
                then map Some av ! nat \<lfloor>r * real (length (map Some av))\<rfloor> else None)"
    unfolding getRandomMove_def available_cells av_def Let_def ..
  have set_av: "set av = emptyCells b" by (auto simp: av_def emptyCells_def)
  show ?thesis
  proof (cases "av = []")
    case True
    with set_av eq show ?thesis by auto
  next
    case False
    then have pos: "0 < length av" by simp
    have lo: "0 \<le> \<lfloor>r * real (length av)\<rfloor>" using assms by simp
    have "r * real (length av) < real (length av)" using assms pos by simp
    then have hi: "nat \<lfloor>r * real (length av)\<rfloor> < length av"
      using lo by (simp add: floor_less_iff nat_less_iff)
    from False set_av have "emptyCells b \<noteq> {}" by auto
    with False lo hi eq show ?thesis by simp
  qed
qed

text \<open>
  Claim C5. On a board with an empty cell \<open>getBestMove\<close> returns an empty cell whose score
  no empty cell exceeds and every empty cell of lower index falls short of: the lowest
  index among the empty cells of greatest score. \<open>getAiMove\<close> returns \<^verbatim>\<open>null\<close> exactly
  when the board has no empty cell, at every difficulty, for the values \<^verbatim>\<open>Math.random\<close>
  can return.
\<close>

theorem getBestMove_lowest_of_best:
  "(emptyCells b \<noteq> {} \<longrightarrow>
      (\<exists>m. fst (getBestMove b md) = Some m \<and> m \<in> emptyCells b
         \<and> (\<forall>j\<in>emptyCells b. moveScore b md j \<le> moveScore b md m)
         \<and> (\<forall>j\<in>emptyCells b. j < m \<longrightarrow> moveScore b md j < moveScore b md m)))
   \<and> (0 \<le> random2 \<and> random2 < 1 \<longrightarrow>
        (fst (getAiMove random1 random2 b difficulty) = None) = (emptyCells b = {}))"
proof (intro conjI impI)
  assume "emptyCells b \<noteq> {}"
  then show "\<exists>m. fst (getBestMove b md) = Some m \<and> m \<in> emptyCells b
         \<and> (\<forall>j\<in>emptyCells b. moveScore b md j \<le> moveScore b md m)
         \<and> (\<forall>j\<in>emptyCells b. j < m \<longrightarrow> moveScore b md j < moveScore b md m)"
    by (rule getBestMove_pick)
next
  assume r: "0 \<le> random2 \<and> random2 < 1"
  have best: "(fst (getBestMove b cap) = None) = (emptyCells b = {})" for cap
  proof (cases "emptyCells b = {}")
    case True
    then show ?thesis by (simp add: getBestMove_full)
  next
    case False
    with getBestMove_pick[OF False, of cap] show ?thesis by auto
  qed
  from r have "(getRandomMove random2 b = None) = (emptyCells b = {})"
    by (simp add: getRandomMove_none)
  with best show "(fst (getAiMove random1 random2 b difficulty) = None) = (emptyCells b = {})"
    by (simp add: getAiMove_def Let_def)
qed

text \<open>The theorem at the board of the test suite with five empty cells.\<close>

theorem getBestMove_lowest_of_best_witness:
  "(\<exists>m. fst (getBestMove
             [Some O_mark, Some O_mark, None, Some X_mark, Some X_mark, None, None, None, None]
             None) = Some m
       \<and> m \<in> emptyCells
             [Some O_mark, Some O_mark, None, Some X_mark, Some X_mark, None, None, None, None]
       \<and> (\<forall>j\<in>emptyCells
             [Some O_mark, Some O_mark, None, Some X_mark, Some X_mark, None, None, None, None].
            moveScore
             [Some O_mark, Some O_mark, None, Some X_mark, Some X_mark, None, None, None, None]
             None j
            \<le> moveScore
             [Some O_mark, Some O_mark, None, Some X_mark, Some X_mark, None, None, None, None]
             None m)
       \<and> (\<forall>j\<in>emptyCells
             [Some O_mark, Some O_mark, None, Some X_mark, Some X_mark, None, None, None, None].
            j < m \<longrightarrow>
            moveScore
             [Some O_mark, Some O_mark, None, Some X_mark, Some X_mark, None, None, None, None]
             None j
            < moveScore
             [Some O_mark, Some O_mark, None, Some X_mark, Some X_mark, None, None, None, None]
             None m))
   \<and> (fst (getAiMove (1 / 10) (1 / 2)
              [Some O_mark, Some O_mark, None, Some X_mark, Some X_mark, None, None, None, None]
              ''easy'') = None)
     = (emptyCells
         [Some O_mark, Some O_mark, None, Some X_mark, Some X_mark, None, None, None, None] = {})"
proof -
  let ?b = "[Some O_mark, Some O_mark, None, Some X_mark, Some X_mark, None, None, None, None]"
  have "2 \<in> emptyCells ?b" by (simp add: emptyCells_def)
  then have ne: "emptyCells ?b \<noteq> {}" by blast
  have r: "(0::real) \<le> 1 / 2 \<and> (1::real) / 2 < 1" by simp
  from getBestMove_lowest_of_best[of ?b None "1 / 2" "1 / 10" "''easy''"] ne r
  show ?thesis by blast
qed

section \<open>The heuristic score and the values of minimax\<close>

lemma scoreCombo_shift: "scoreCombo b line s = s + scoreCombo b line 0"
  unfolding scoreCombo_def Let_def by (simp only: split: if_split) simp

lemma scoreLoop_sum: "scoreLoop b cs s = s + (\<Sum>line\<leftarrow>cs. lineScore b line)"
proof (induction cs arbitrary: s)
  case Nil
  show ?case by simp
next
  case (Cons c cs)
  show ?case
    using scoreCombo_shift[of b c s] by (simp add: Cons.IH lineScore_def)
qed

lemma cell_cases: "(c :: cell) = None \<or> c = Some X_mark \<or> c = Some O_mark"
  by (cases c) (auto intro: mark.exhaust)

lemma lineScore_cases:
  assumes "i < length b" "j < length b" "k < length b"
  shows "(0 < countIn b [i, j, k] (Some O_mark) \<and> 0 < countIn b [i, j, k] (Some X_mark)
            \<longrightarrow> lineScore b [i, j, k] = 0)
       \<and> (countIn b [i, j, k] (Some O_mark) = 2 \<and> countIn b [i, j, k] None = 1
            \<longrightarrow> lineScore b [i, j, k] = 3)
       \<and> (countIn b [i, j, k] (Some O_mark) = 1 \<and> countIn b [i, j, k] None = 2
            \<longrightarrow> lineScore b [i, j, k] = 1)
       \<and> (countIn b [i, j, k] (Some X_mark) = 2 \<and> countIn b [i, j, k] None = 1
            \<longrightarrow> lineScore b [i, j, k] = - 3)
       \<and> (countIn b [i, j, k] (Some X_mark) = 1 \<and> countIn b [i, j, k] None = 2
            \<longrightarrow> lineScore b [i, j, k] = - 1)"
  using assms cell_cases[of "b ! i"] cell_cases[of "b ! j"] cell_cases[of "b ! k"]
  by (auto simp: countIn_def lineScore_def scoreCombo_def cellAt_def)


lemma scoreBoard_sum: "scoreBoard b = (\<Sum>line\<leftarrow>winningCombos. lineScore b line)"
  by (simp add: scoreBoard_def scoreLoop_sum)

lemma winningCombos_lines:
  "line \<in> set winningCombos \<Longrightarrow> \<exists>i j k. line = [i, j, k] \<and> i < 9 \<and> j < 9 \<and> k < 9"
  by (auto simp: winningCombos_def)

text \<open>
  Claim C6. On a board of nine cells the heuristic score is the sum over the eight lines
  of what each line adds: nothing when both marks are on the line, 3 for two marks of the
  computer and an empty cell, 1 for one mark of the computer and two empty cells, and the
  same with the opposite sign for the player. \<open>minimax\<close> values a draw as 0, a win of the
  computer as 10 minus the depth and a win of the player as the depth minus 10. It returns
  the heuristic score when the position is not terminal and a depth cap is set and
  reached; when the position is not terminal and no cap is reached it returns the greatest
  (computer to move) or the least (player to move) value of the positions one move on.
\<close>

theorem scoreBoard_and_minimax_values:
  assumes "length b = 9"
  shows "scoreBoard b = (\<Sum>line\<leftarrow>winningCombos. lineScore b line)
       \<and> (\<forall>line\<in>set winningCombos.
             (0 < countIn b line (Some O_mark) \<and> 0 < countIn b line (Some X_mark)
                \<longrightarrow> lineScore b line = 0)
           \<and> (countIn b line (Some O_mark) = 2 \<and> countIn b line None = 1
                \<longrightarrow> lineScore b line = 3)
           \<and> (countIn b line (Some O_mark) = 1 \<and> countIn b line None = 2
                \<longrightarrow> lineScore b line = 1)
           \<and> (countIn b line (Some X_mark) = 2 \<and> countIn b line None = 1
                \<longrightarrow> lineScore b line = - 3)
           \<and> (countIn b line (Some X_mark) = 1 \<and> countIn b line None = 2
                \<longrightarrow> lineScore b line = - 1))
       \<and> (evaluateBoard b = Some drawOutcome \<longrightarrow> fst (minimax b depth isMax md) = Fin 0)
       \<and> (\<forall>line. evaluateBoard b = Some (winOutcome O_mark line)
             \<longrightarrow> fst (minimax b depth isMax md) = Fin (10 - depth))
       \<and> (\<forall>line. evaluateBoard b = Some (winOutcome X_mark line)
             \<longrightarrow> fst (minimax b depth isMax md) = Fin (depth - 10))
       \<and> (evaluateBoard b = None \<and> capped md depth
             \<longrightarrow> fst (minimax b depth isMax md) = Fin (scoreBoard b))
       \<and> (evaluateBoard b = None \<and> \<not> capped md depth
             \<longrightarrow> fst (minimax b depth isMax md) =
                 (if isMax
                  then Max ((\<lambda>i. fst (minimax (b[i := Some O_mark]) (depth + 1) False md))
                              ` emptyCells b)
                  else Min ((\<lambda>i. fst (minimax (b[i := Some X_mark]) (depth + 1) True md))
                              ` emptyCells b)))"
proof (intro conjI ballI allI impI)
  show "scoreBoard b = (\<Sum>line\<leftarrow>winningCombos. lineScore b line)"
    by (rule scoreBoard_sum)
next
  fix line
  assume "line \<in> set winningCombos"
  then obtain i j k where l: "line = [i, j, k]" "i < 9" "j < 9" "k < 9"
    using winningCombos_lines by blast
  then have in_range: "i < length b" "j < length b" "k < length b" using assms by simp_all
  note cases = lineScore_cases[OF in_range]
  { assume "0 < countIn b line (Some O_mark) \<and> 0 < countIn b line (Some X_mark)"
    with cases l(1) show "lineScore b line = 0" by blast }
  { assume "countIn b line (Some O_mark) = 2 \<and> countIn b line None = 1"
    with cases l(1) show "lineScore b line = 3" by blast }
  { assume "countIn b line (Some O_mark) = 1 \<and> countIn b line None = 2"
    with cases l(1) show "lineScore b line = 1" by blast }
  { assume "countIn b line (Some X_mark) = 2 \<and> countIn b line None = 1"
    with cases l(1) show "lineScore b line = - 3" by blast }
  { assume "countIn b line (Some X_mark) = 1 \<and> countIn b line None = 2"
    with cases l(1) show "lineScore b line = - 1" by blast }
next
  assume "evaluateBoard b = Some drawOutcome"
  then show "fst (minimax b depth isMax md) = Fin 0"
    by (simp add: minimax_terminal drawOutcome_def)
next
  fix line
  assume "evaluateBoard b = Some (winOutcome O_mark line)"
  then show "fst (minimax b depth isMax md) = Fin (10 - depth)"
    by (simp add: minimax_terminal winOutcome_def)
next
  fix line
  assume "evaluateBoard b = Some (winOutcome X_mark line)"
  then show "fst (minimax b depth isMax md) = Fin (depth - 10)"
    by (simp add: minimax_terminal winOutcome_def)
next
  assume "evaluateBoard b = None \<and> capped md depth"
  then show "fst (minimax b depth isMax md) = Fin (scoreBoard b)"
    by (simp add: minimax_capped)
next
  assume h: "evaluateBoard b = None \<and> \<not> capped md depth"
  show "fst (minimax b depth isMax md) =
                 (if isMax
                  then Max ((\<lambda>i. fst (minimax (b[i := Some O_mark]) (depth + 1) False md))
                              ` emptyCells b)
                  else Min ((\<lambda>i. fst (minimax (b[i := Some X_mark]) (depth + 1) True md))
                              ` emptyCells b))"
  proof (cases isMax)
    case True
    with h minimax_max[of b md depth] show ?thesis by simp
  next
    case False
    with h minimax_min[of b md depth] show ?thesis by simp
  qed
qed

text \<open>
  The theorem at the board of the test suite where the computer holds cells 0 and 1 and
  the player cells 3 and 4, and at that board with the first row completed.
\<close>

theorem scoreBoard_and_minimax_values_witness:
  "lineScore [Some O_mark, Some O_mark, None, Some X_mark, Some X_mark, None, None, None, None]
      [0, 1, 2] = 3
   \<and> lineScore [Some O_mark, Some O_mark, None, Some X_mark, Some X_mark, None, None, None, None]
      [3, 4, 5] = - 3
   \<and> fst (minimax [Some O_mark, Some O_mark, None, Some X_mark, Some X_mark, None, None, None, None]
          3 True (Some 3))
      = Fin (scoreBoard
          [Some O_mark, Some O_mark, None, Some X_mark, Some X_mark, None, None, None, None])
   \<and> fst (minimax [Some O_mark, Some O_mark, Some O_mark, Some X_mark, Some X_mark, None, None, None, None]
          2 False None) = Fin 8"
proof -
  let ?b = "[Some O_mark, Some O_mark, None, Some X_mark, Some X_mark, None, None, None, None]"
  let ?w = "[Some O_mark, Some O_mark, Some O_mark, Some X_mark, Some X_mark, None, None, None, None]"
  have len: "length ?b = 9" "length ?w = 9" by simp_all
  have l1: "[0, 1, 2] \<in> set winningCombos" and l2: "[3, 4, 5] \<in> set winningCombos"
    by (simp_all add: winningCombos_def)
  have c1: "countIn ?b [0, 1, 2] (Some O_mark) = 2 \<and> countIn ?b [0, 1, 2] None = 1"
    by (simp add: countIn_def)
  have c2: "countIn ?b [3, 4, 5] (Some X_mark) = 2 \<and> countIn ?b [3, 4, 5] None = 1"
    by (simp add: countIn_def)
  have e1: "evaluateBoard ?b = None \<and> capped (Some 3) 3"
    by (simp add: evaluateBoard_def winningCombos_def cellAt_def capped_def)
  have e2: "evaluateBoard ?w = Some (winOutcome O_mark [0, 1, 2])"
    by (simp add: evaluateBoard_def winningCombos_def cellAt_def winOutcome_def)
  note T = scoreBoard_and_minimax_values[OF len(1), of 3 True "Some 3"]
  note W = scoreBoard_and_minimax_values[OF len(2), of 2 False None]
  from T l1 c1 have "lineScore ?b [0, 1, 2] = 3" by blast
  moreover from T l2 c2 have "lineScore ?b [3, 4, 5] = - 3" by blast
  moreover from T e1 have "fst (minimax ?b 3 True (Some 3)) = Fin (scoreBoard ?b)" by blast
  moreover from W e2 have "fst (minimax ?w 2 False None) = Fin (10 - 2)" by blast
  ultimately show ?thesis by simp
qed

section \<open>The two boards of the test suite\<close>

lemma best_on_win_board:
  "getBestMove [Some O_mark, Some O_mark, None, Some X_mark, Some X_mark, None, None, None, None] None
     = (Some 2, [Some O_mark, Some O_mark, None, Some X_mark, Some X_mark, None, None, None, None])"
  "getBestMove [Some O_mark, Some O_mark, None, Some X_mark, Some X_mark, None, None, None, None] (Some 3)
     = (Some 2, [Some O_mark, Some O_mark, None, Some X_mark, Some X_mark, None, None, None, None])"
  by code_simp+

lemma best_on_block_board:
  "getBestMove [Some X_mark, Some X_mark, None, None, Some O_mark, None, None, None, None] None
     = (Some 2, [Some X_mark, Some X_mark, None, None, Some O_mark, None, None, None, None])"
  "getBestMove [Some X_mark, Some X_mark, None, None, Some O_mark, None, None, None, None] (Some 3)
     = (Some 2, [Some X_mark, Some X_mark, None, None, Some O_mark, None, None, None, None])"
  by code_simp+

text \<open>
  Claim C7. On the board \<^verbatim>\<open>['O','O',null,'X','X',null,null,null,null]\<close> \<open>getAiMove\<close>
  returns 2 at every difficulty unless the difficulty is easy and the random value is
  below the blunder rate; on \<^verbatim>\<open>['X','X',null,null,'O',null,null,null,null]\<close> it
  returns 2 at the normal and the hard difficulty.
\<close>

theorem getAiMove_wins_and_blocks:
  "(\<not> (difficulty = ''easy'' \<and> random1 < 0.25) \<longrightarrow>
      fst (getAiMove random1 random2
             [Some O_mark, Some O_mark, None, Some X_mark, Some X_mark, None, None, None, None]
             difficulty) = Some 2)
   \<and> fst (getAiMove random1 random2
             [Some X_mark, Some X_mark, None, None, Some O_mark, None, None, None, None]
             ''normal'') = Some 2
   \<and> fst (getAiMove random1 random2
             [Some X_mark, Some X_mark, None, None, Some O_mark, None, None, None, None]
             ''hard'') = Some 2"
  by (auto simp: getAiMove_def difficultySettings_def best_on_win_board best_on_block_board)

text \<open>The theorem at the easy difficulty with the random value 0.99 of the test suite.\<close>

theorem getAiMove_wins_and_blocks_witness:
  "fst (getAiMove 0.99 0
          [Some O_mark, Some O_mark, None, Some X_mark, Some X_mark, None, None, None, None]
          ''easy'') = Some 2"
proof -
  have "\<not> (''easy'' = ''easy'' \<and> (0.99::real) < 0.25)" by simp
  with getAiMove_wins_and_blocks[of "''easy''" "0.99" 0] show ?thesis by blast
qed

subsection \<open>Games against the hard computer from these boards\<close>

lemma block_board_not_lost:
  "\<not> playerForcesWin True
       [Some X_mark, Some X_mark, None, None, Some O_mark, None, None, None, None]"
  by code_simp

lemma reply_on_block_board:
  "getBestMove
     [Some X_mark, Some X_mark, Some O_mark, None, Some O_mark, None, Some X_mark, None, None] None
   = (Some 3,
      [Some X_mark, Some X_mark, Some O_mark, None, Some O_mark, None, Some X_mark, None, None])"
  by code_simp

text \<open>
  The theorem along a game from the board \<^verbatim>\<open>['X','X',null,null,'O',null,null,null,null]\<close>:
  the computer takes cell 2, the player cell 6, the computer cell 3.
\<close>

theorem hard_never_loses_witness:
  "\<not> playerWon
       [Some X_mark, Some X_mark, Some O_mark, Some O_mark, Some O_mark, None, Some X_mark, None, None]"
proof -
  let ?b = "[Some X_mark, Some X_mark, None, None, Some O_mark, None, None, None, None]"
  let ?c1 = "[Some X_mark, Some X_mark, Some O_mark, None, Some O_mark, None, None, None, None]"
  let ?c2 = "[Some X_mark, Some X_mark, Some O_mark, None, Some O_mark, None, Some X_mark, None, None]"
  let ?c3 = "[Some X_mark, Some X_mark, Some O_mark, Some O_mark, Some O_mark, None, Some X_mark, None, None]"
  have len: "length ?b = 9" by simp
  have go: "evaluateBoard ?b = None"
    by (simp add: evaluateBoard_def winningCombos_def cellAt_def)
  have "fst (getAiMove 0 0 ?b ''hard'') = Some 2"
    by (simp add: getAiMove_def difficultySettings_def best_on_block_board)
  from hardPlay.computer_first[OF this] have p1: "hardPlay ?b False ?c1" by simp
  have "evaluateBoard ?c1 = None"
    by (simp add: evaluateBoard_def winningCombos_def cellAt_def)
  from hardPlay.player_move[OF p1 this, of 6] have p2: "hardPlay ?b True ?c2" by simp
  have go2: "evaluateBoard ?c2 = None"
    by (simp add: evaluateBoard_def winningCombos_def cellAt_def)
  have "fst (getAiMove 0 0 ?c2 ''hard'') = Some 3"
    by (simp add: getAiMove_def difficultySettings_def reply_on_block_board)
  from hardPlay.computer_reply[OF p2 go2 this] have p3: "hardPlay ?b False ?c3" by simp
  from hard_never_loses[OF len go block_board_not_lost p3] show ?thesis .
qed

text \<open>
  The condition that the computer has not already lost cannot be dropped. On the board
  \<^verbatim>\<open>[null,'O',null,'O','X',null,'X',null,'X']\<close>, which alternating moves reach when
  the player starts, the player threatens three lines; the hard computer takes cell 0
  and the player wins with cell 2.
\<close>

lemma lost_board_moves:
  "getBestMove
     [None, Some O_mark, None, Some O_mark, Some X_mark, None, Some X_mark, None, Some X_mark] None
   = (Some 0,
      [None, Some O_mark, None, Some O_mark, Some X_mark, None, Some X_mark, None, Some X_mark])"
  by code_simp

lemma lost_board_example:
  "evaluateBoard
     [None, Some O_mark, None, Some O_mark, Some X_mark, None, Some X_mark, None, Some X_mark] = None
   \<and> playerForcesWin True
     [None, Some O_mark, None, Some O_mark, Some X_mark, None, Some X_mark, None, Some X_mark]
   \<and> hardPlay
     [None, Some O_mark, None, Some O_mark, Some X_mark, None, Some X_mark, None, Some X_mark] True
     [Some O_mark, Some O_mark, Some X_mark, Some O_mark, Some X_mark, None, Some X_mark, None, Some X_mark]
   \<and> playerWon
     [Some O_mark, Some O_mark, Some X_mark, Some O_mark, Some X_mark, None, Some X_mark, None, Some X_mark]"
proof -
  let ?b = "[None, Some O_mark, None, Some O_mark, Some X_mark, None, Some X_mark, None, Some X_mark]"
  let ?c1 = "[Some O_mark, Some O_mark, None, Some O_mark, Some X_mark, None, Some X_mark, None, Some X_mark]"
  let ?c2 = "[Some O_mark, Some O_mark, Some X_mark, Some O_mark, Some X_mark, None, Some X_mark, None, Some X_mark]"
  have go: "evaluateBoard ?b = None"
    by (simp add: evaluateBoard_def winningCombos_def cellAt_def)
  have lost: "playerForcesWin True ?b" by code_simp
  have "fst (getAiMove 0 0 ?b ''hard'') = Some 0"
    by (simp add: getAiMove_def difficultySettings_def lost_board_moves)
  from hardPlay.computer_first[OF this] have p1: "hardPlay ?b False ?c1" by simp
  have "evaluateBoard ?c1 = None"
    by (simp add: evaluateBoard_def winningCombos_def cellAt_def)
  from hardPlay.player_move[OF p1 this, of 2] have p2: "hardPlay ?b True ?c2" by simp
  have won: "playerWon ?c2"
    by (simp add: playerWon_def evaluateBoard_def winningCombos_def cellAt_def)
  from go lost p2 won show ?thesis by blast
qed

text \<open>
  The empty board, on which the computer moves first when it starts the game, is not
  lost.
\<close>

lemma empty_board_not_lost:
  "\<not> playerForcesWin True [None, None, None, None, None, None, None, None, None]"
  by code_simp

section \<open>The board after a search\<close>

text \<open>
  Claim C10. \<open>getAiMove\<close> hands back the board it was given, whatever the difficulty and
  the random values; so do \<open>getBestMove\<close> and \<open>minimax\<close>, whose every write into the board
  is undone before they return.
\<close>

theorem getAiMove_leaves_board:
  "snd (getAiMove random1 random2 b difficulty) = b
   \<and> snd (getBestMove b md) = b
   \<and> snd (minimax b depth isMax md) = b"
  by (simp add: getAiMove_def Let_def getBestMove_board search_restores_board)

section \<open>The result endpoint\<close>

lemma safeParse_Some:
  "RESULT_SCHEMA_safeParse b = Some parsed \<Longrightarrow>
   result parsed \<in> {''win'', ''loss'', ''draw''}
   \<and> (\<forall>ev. eventId parsed = Some ev \<longrightarrow> 6 \<le> length ev \<and> length ev \<le> 64)"
  by (auto simp: RESULT_SCHEMA_safeParse_def split: requestBody.splits jsonField.splits if_splits)

lemma truthy_eventId:
  "RESULT_SCHEMA_safeParse b = Some parsed \<Longrightarrow> truthy (eventId parsed) = (eventId parsed \<noteq> None)"
  using safeParse_Some[of b parsed] by (auto simp: truthy_def split: option.splits)

text \<open>
  Claim C8. A report whose \<^verbatim>\<open>result\<close> is not one of the strings win, loss and draw, or
  whose \<^verbatim>\<open>eventId\<close> is a string of fewer than 6 or more than 64 characters, is answered
  with status 400 and the message of an invalid payload, and the store (both indices of
  the ledger, the idempotency cache and the queued notifications) is left as it was.
\<close>

theorem invalid_payload_rejected:
  assumes "reqBody rq = Fields r e"
    and "(\<forall>res. r = Text res \<longrightarrow> res \<notin> {''win'', ''loss'', ''draw''})
         \<or> (\<exists>ev. e = Text ev \<and> (length ev < 6 \<or> 64 < length ev))"
  shows "postApiResult rq st =
           (\<lparr>httpStatus = 400, body = errorPayload ''Invalid payload'', setCookie = None\<rparr>, st)"
proof -
  have "RESULT_SCHEMA_safeParse (reqBody rq) = None"
    using assms by (auto simp: RESULT_SCHEMA_safeParse_def split: jsonField.splits)
  then show ?thesis by (simp add: postApiResult_def)
qed

text \<open>The theorem at a report with the result \<^verbatim>\<open>"won"\<close> and at one with a short event id.\<close>

theorem invalid_payload_rejected_witness:
  "postApiResult
     \<lparr>reqBody = Fields (Text ''won'') Missing, cookieSid = None, nowPrune = 0, nowPromo = 0,
      nowMint = 0, nowEvent = 0, randomUUID = ''u'', randomInt = (\<lambda>i. 10000)\<rparr> emptyStore
   = (\<lparr>httpStatus = 400, body = errorPayload ''Invalid payload'', setCookie = None\<rparr>, emptyStore)
   \<and> postApiResult
     \<lparr>reqBody = Fields (Text ''win'') (Text ''abc''), cookieSid = None, nowPrune = 0, nowPromo = 0,
      nowMint = 0, nowEvent = 0, randomUUID = ''u'', randomInt = (\<lambda>i. 10000)\<rparr> emptyStore
   = (\<lparr>httpStatus = 400, body = errorPayload ''Invalid payload'', setCookie = None\<rparr>, emptyStore)"
proof -
  let ?rq1 = "\<lparr>reqBody = Fields (Text ''won'') Missing, cookieSid = None, nowPrune = 0, nowPromo = 0,
      nowMint = 0, nowEvent = 0, randomUUID = ''u'', randomInt = (\<lambda>i. 10000)\<rparr>"
  let ?rq2 = "\<lparr>reqBody = Fields (Text ''win'') (Text ''abc''), cookieSid = None, nowPrune = 0, nowPromo = 0,
      nowMint = 0, nowEvent = 0, randomUUID = ''u'', randomInt = (\<lambda>i. 10000)\<rparr>"
  have b1: "reqBody ?rq1 = Fields (Text ''won'') Missing" by simp
  have h1: "(\<forall>res. Text ''won'' = Text res \<longrightarrow> res \<notin> {''win'', ''loss'', ''draw''})
         \<or> (\<exists>ev. Missing = Text ev \<and> (length ev < 6 \<or> 64 < length ev))" by simp
  have b2: "reqBody ?rq2 = Fields (Text ''win'') (Text ''abc'')" by simp
  have h2: "(\<forall>res. Text ''win'' = Text res \<longrightarrow> res \<notin> {''win'', ''loss'', ''draw''})
         \<or> (\<exists>ev. Text ''abc'' = Text ev \<and> (length ev < 6 \<or> 64 < length ev))" by simp
  from invalid_payload_rejected[OF b1 h1, of emptyStore]
       invalid_payload_rejected[OF b2 h2, of emptyStore]
  show ?thesis by simp
qed

lemma truthy_simps [simp]: "\<not> truthy None" "truthy (Some s) = (s \<noteq> [])"
  by (simp_all add: truthy_def)

lemma queue_None [simp]: "queueTelegramMessage None st = st"
  by (simp add: queueTelegramMessage_def truthy_def)

lemma lossText_nonempty [simp]: "lossText \<noteq> []"
  by (simp add: lossText_def)

lemma pruneExpired_fields [simp]:
  "issuedBySession (pruneExpired now st) = pruneMap sessionCreatedAt PROMO_TTL_MS now (issuedBySession st)"
  "issuedCodes (pruneExpired now st) = pruneMap codeCreatedAt PROMO_TTL_MS now (issuedCodes st)"
  "processedEvents (pruneExpired now st) = pruneMap eventCreatedAt EVENT_TTL_MS now (processedEvents st)"
  "queued (pruneExpired now st) = queued st"
  by (simp_all add: pruneExpired_def)

lemma queue_fields [simp]:
  "issuedBySession (queueTelegramMessage t st) = issuedBySession st"
  "issuedCodes (queueTelegramMessage t st) = issuedCodes st"
  "processedEvents (queueTelegramMessage t st) = processedEvents st"
  by (simp_all add: queueTelegramMessage_def)

text \<open>The handler on a report that parses, by whether the cache answers it.\<close>

lemma postApiResult_cached:
  assumes "RESULT_SCHEMA_safeParse (reqBody rq) = Some parsed"
    and "eventId parsed = Some ev"
    and "processedEvents (pruneExpired (nowPrune rq) st) ev = Some entry"
  shows "postApiResult rq st =
           (\<lparr>httpStatus = 200, body = response entry, setCookie = snd (getSessionId rq)\<rparr>,
            pruneExpired (nowPrune rq) st)"
  using assms truthy_eventId[OF assms(1)]
  by (simp add: postApiResult_def Let_def case_prod_beta)

lemma postApiResult_computed:
  assumes "RESULT_SCHEMA_safeParse (reqBody rq) = Some parsed"
    and "\<not> servedFromCache rq parsed st"
  shows "postApiResult rq st =
     (case computeResult rq parsed (fst (getSessionId rq)) (pruneExpired (nowPrune rq) st) of
        Inl st2 \<Rightarrow>
          (\<lparr>httpStatus = 500, body = errorPayload ''Internal error'',
            setCookie = snd (getSessionId rq)\<rparr>, st2)
      | Inr (responsePayload, telegramMessage, st2) \<Rightarrow>
          (\<lparr>httpStatus = 200, body = responsePayload, setCookie = snd (getSessionId rq)\<rparr>,
           queueTelegramMessage telegramMessage
             (case eventId parsed of
                None \<Rightarrow> st2
              | Some ev \<Rightarrow> st2\<lparr>processedEvents := (processedEvents st2)
                            (ev \<mapsto> \<lparr>eventCreatedAt = nowEvent rq, response = responsePayload\<rparr>)\<rparr>)))"
proof (cases "eventId parsed")
  case None
  with assms show ?thesis
    by (simp add: postApiResult_def Let_def case_prod_beta truthy_def
             split: sum.split prod.split)
next
  case (Some ev)
  with assms truthy_eventId[OF assms(1)] show ?thesis
    by (simp add: postApiResult_def Let_def case_prod_beta servedFromCache_def
             split: sum.split prod.split)
qed

text \<open>
  Claim C9, as the code has it. A valid loss or draw report leaves both indices of the
  ledger as \<open>pruneExpired\<close> leaves them. A loss report that is not answered from the
  idempotency cache queues the fixed text and nothing else; a loss report answered from
  the cache and a draw report queue nothing.
\<close>

theorem loss_and_draw_effects:
  assumes "RESULT_SCHEMA_safeParse (reqBody rq) = Some parsed"
    and "result parsed = ''loss'' \<or> result parsed = ''draw''"
  shows "issuedBySession (snd (postApiResult rq st))
           = pruneMap sessionCreatedAt PROMO_TTL_MS (nowPrune rq) (issuedBySession st)
       \<and> issuedCodes (snd (postApiResult rq st))
           = pruneMap codeCreatedAt PROMO_TTL_MS (nowPrune rq) (issuedCodes st)
       \<and> queued (snd (postApiResult rq st))
           = (if result parsed = ''loss'' \<and> \<not> servedFromCache rq parsed st
              then queued st @ [lossText] else queued st)"
proof (cases "servedFromCache rq parsed st")
  case True
  then obtain ev entry where "eventId parsed = Some ev"
    "processedEvents (pruneExpired (nowPrune rq) st) ev = Some entry"
    by (auto simp: servedFromCache_def split: option.splits)
  from postApiResult_cached[OF assms(1) this] True show ?thesis by simp
next
  case False
  from assms(2) have comp:
    "computeResult rq parsed sid st1 =
       Inr (okPayload, if result parsed = ''loss'' then Some lossText else None, st1)" for sid st1
    by (auto simp: computeResult_def)
  show ?thesis
    unfolding postApiResult_computed[OF assms(1) False] comp
    using False by (auto simp: queueTelegramMessage_def split: option.splits)
qed

lemmas handler_defs =
  postApiResult_def RESULT_SCHEMA_safeParse_def pruneExpired_def pruneMap_def getSessionId_def
  getSessionPromo_def computeResult_def queueTelegramMessage_def generateUniquePromoCode_def
  okPayload_def errorPayload_def emptyStore_def reportAt_def Let_def
  PROMO_TTL_MS_def SESSION_COOLDOWN_MS_def EVENT_TTL_MS_def

text \<open>
  As stated, claim C9 fails for a loss report that is sent again with its event id: the
  second report is valid, is answered from the cache, and queues nothing.
\<close>

theorem repeated_loss_queues_nothing:
  "RESULT_SCHEMA_safeParse (reqBody (reportAt ''loss'' (Text ''event-1'') ''s1'' 2000 10000))
     = Some \<lparr>result = ''loss'', eventId = Some ''event-1''\<rparr>
   \<and> queued (snd (postApiResult (reportAt ''loss'' (Text ''event-1'') ''s1'' 1000 10000) emptyStore))
     = [lossText]
   \<and> queued (snd (postApiResult (reportAt ''loss'' (Text ''event-1'') ''s1'' 2000 10000)
        (snd (postApiResult (reportAt ''loss'' (Text ''event-1'') ''s1'' 1000 10000) emptyStore))))
     = [lossText]"
  by (simp add: handler_defs)

text \<open>The theorem at a first loss report and at a draw report on the empty store.\<close>

theorem loss_and_draw_effects_witness:
  "queued (snd (postApiResult (reportAt ''loss'' (Text ''event-1'') ''s1'' 1000 10000) emptyStore))
     = queued emptyStore @ [lossText]
   \<and> queued (snd (postApiResult (reportAt ''draw'' Missing ''s1'' 1000 10000) emptyStore))
     = queued emptyStore
   \<and> issuedCodes (snd (postApiResult (reportAt ''draw'' Missing ''s1'' 1000 10000) emptyStore))
     = pruneMap codeCreatedAt PROMO_TTL_MS 1000 (issuedCodes emptyStore)"
proof -
  let ?l = "reportAt ''loss'' (Text ''event-1'') ''s1'' 1000 10000"
  let ?d = "reportAt ''draw'' Missing ''s1'' 1000 10000"
  have pl: "RESULT_SCHEMA_safeParse (reqBody ?l) = Some \<lparr>result = ''loss'', eventId = Some ''event-1''\<rparr>"
    by (simp add: RESULT_SCHEMA_safeParse_def reportAt_def)
  have pd: "RESULT_SCHEMA_safeParse (reqBody ?d) = Some \<lparr>result = ''draw'', eventId = None\<rparr>"
    by (simp add: RESULT_SCHEMA_safeParse_def reportAt_def)
  have nl: "\<not> servedFromCache ?l \<lparr>result = ''loss'', eventId = Some ''event-1''\<rparr> emptyStore"
    by (simp add: servedFromCache_def emptyStore_def pruneMap_def)
  from loss_and_draw_effects[OF pl, of emptyStore] nl
  have "queued (snd (postApiResult ?l emptyStore)) = queued emptyStore @ [lossText]" by simp
  moreover from loss_and_draw_effects[OF pd, of emptyStore]
  have "queued (snd (postApiResult ?d emptyStore)) = queued emptyStore
      \<and> issuedCodes (snd (postApiResult ?d emptyStore))
          = pruneMap codeCreatedAt PROMO_TTL_MS (nowPrune ?d) (issuedCodes emptyStore)"
    by simp
  ultimately show ?thesis by (simp add: reportAt_def)
qed

text \<open>A code the generator returns is new to the index, and it is not the empty string.\<close>

lemma String_of_nonempty: "String_of n \<noteq> []"
  by (subst String_of.simps) simp

lemma generateLoop_nonempty: "generateLoop n i draw codes = Some c \<Longrightarrow> c \<noteq> []"
  by (induction n arbitrary: i) (auto simp: Let_def String_of_nonempty split: if_splits)

lemma generateLoop_fresh: "generateLoop n i draw codes = Some c \<Longrightarrow> codes c = None"
  by (induction n arbitrary: i) (auto simp: Let_def split: if_splits)

lemma generateUniquePromoCode_fresh:
  "generateUniquePromoCode draw codes = Some c \<Longrightarrow> codes c = None"
  unfolding generateUniquePromoCode_def by (rule generateLoop_fresh)

lemma getSessionPromo_other [simp]:
  "issuedCodes (snd (getSessionPromo now sid st)) = issuedCodes st"
  "processedEvents (snd (getSessionPromo now sid st)) = processedEvents st"
  "queued (snd (getSessionPromo now sid st)) = queued st"
  by (simp_all add: getSessionPromo_def Let_def split: option.split)

text \<open>What the \<^verbatim>\<open>try\<close> block does to the store besides the index of the sessions.\<close>

lemma computeResult_Inl:
  assumes "computeResult rq parsed sid st = Inl st2"
  shows "issuedCodes st2 = issuedCodes st \<and> processedEvents st2 = processedEvents st
       \<and> queued st2 = queued st"
  using assms
  by (auto simp: computeResult_def case_prod_beta Let_def split: if_splits option.splits)

lemma computeResult_Inr:
  assumes "computeResult rq parsed sid st = Inr (p, msg, st2)"
  shows "processedEvents st2 = processedEvents st \<and> queued st2 = queued st
       \<and> (issuedCodes st2 = issuedCodes st
           \<or> (\<exists>c entry. issuedCodes st c = None \<and> issuedCodes st2 = (issuedCodes st)(c \<mapsto> entry)))"
proof (cases "result parsed = ''win''")
  case False
  with assms show ?thesis by (auto simp: computeResult_def split: if_splits)
next
  case True
  obtain existing st1 where g: "getSessionPromo (nowPromo rq) sid st = (existing, st1)"
    by (metis surj_pair)
  then have st1: "issuedCodes st1 = issuedCodes st" "processedEvents st1 = processedEvents st"
    "queued st1 = queued st"
    using getSessionPromo_other[of "nowPromo rq" sid st] by simp_all
  show ?thesis
  proof (cases "truthy existing")
    case t: True
    with assms True g st1 show ?thesis by (simp add: computeResult_def)
  next
    case f: False
    with assms True g obtain c where
      c: "generateUniquePromoCode (randomInt rq) (issuedCodes st1) = Some c"
      by (auto simp: computeResult_def split: option.splits)
    from generateUniquePromoCode_fresh[OF c] st1 have fresh: "issuedCodes st c = None" by simp
    from assms True g f c st1 have
      "processedEvents st2 = processedEvents st" "queued st2 = queued st"
      "issuedCodes st2 = (issuedCodes st)
         (c \<mapsto> \<lparr>codeCreatedAt = nowMint rq, codeSessionId = sid, redeemed = False\<rparr>)"
      by (auto simp: computeResult_def Let_def)
    with fresh show ?thesis by blast
  qed
qed

lemma dom_pruneMap: "dom (pruneMap created ttl now m) \<subseteq> dom m"
  by (auto simp: pruneMap_def split: option.splits if_splits)

lemma postApiResult_mints_at_most_one:
  "\<exists>c. dom (issuedCodes (snd (postApiResult rq st))) \<subseteq> insert c (dom (issuedCodes st))"
proof (cases "RESULT_SCHEMA_safeParse (reqBody rq)")
  case None
  then show ?thesis by (auto simp: postApiResult_def)
next
  case (Some parsed)
  let ?st1 = "pruneExpired (nowPrune rq) st"
  have pr: "dom (issuedCodes ?st1) \<subseteq> dom (issuedCodes st)" by (simp add: dom_pruneMap)
  show ?thesis
  proof (cases "servedFromCache rq parsed st")
    case True
    then obtain ev entry where "eventId parsed = Some ev"
      "processedEvents ?st1 ev = Some entry"
      by (auto simp: servedFromCache_def split: option.splits)
    from postApiResult_cached[OF Some this] pr show ?thesis by auto
  next
    case False
    note eq = postApiResult_computed[OF Some False]
    show ?thesis
    proof (cases "computeResult rq parsed (fst (getSessionId rq)) ?st1")
      case (Inl st2)
      with computeResult_Inl[OF Inl] eq pr show ?thesis by auto
    next
      case (Inr r)
      obtain p msg st2 where r: "r = (p, msg, st2)" by (metis surj_pair)
      from computeResult_Inr[OF Inr[unfolded r]]
      have "issuedCodes st2 = issuedCodes ?st1
           \<or> (\<exists>c entry. issuedCodes st2 = (issuedCodes ?st1)(c \<mapsto> entry))" by blast
      then have "\<exists>c. dom (issuedCodes st2) \<subseteq> insert c (dom (issuedCodes ?st1))"
      proof
        assume "issuedCodes st2 = issuedCodes ?st1"
        then show ?thesis by (simp only: subset_insertI exI)
      next
        assume "\<exists>c entry. issuedCodes st2 = (issuedCodes ?st1)(c \<mapsto> entry)"
        then obtain c entry where "issuedCodes st2 = (issuedCodes ?st1)(c \<mapsto> entry)" by blast
        then have "dom (issuedCodes st2) \<subseteq> insert c (dom (issuedCodes ?st1))"
          by (simp only: dom_fun_upd) simp
        then show ?thesis ..
      qed
      then obtain c where "dom (issuedCodes st2) \<subseteq> insert c (dom (issuedCodes ?st1))" ..
      with pr have "dom (issuedCodes st2) \<subseteq> insert c (dom (issuedCodes st))" by blast
      moreover have "issuedCodes (snd (postApiResult rq st)) = issuedCodes st2"
        unfolding eq Inr r by (simp split: option.split)
      ultimately show ?thesis by auto
    qed
  qed
qed

lemma first_call_entry:
  assumes p: "RESULT_SCHEMA_safeParse (reqBody rq) = Some parsed"
    and ev: "eventId parsed = Some ev"
    and call: "postApiResult rq st = (resp, st1)"
    and entry: "processedEvents st1 ev = Some entry"
  shows "httpStatus resp = 200 \<and> response entry = body resp"
proof (cases "servedFromCache rq parsed st")
  case True
  then obtain e0 where e0: "processedEvents (pruneExpired (nowPrune rq) st) ev = Some e0"
    using ev by (auto simp: servedFromCache_def)
  from postApiResult_cached[OF p ev e0] call entry e0 show ?thesis by auto
next
  case False
  then have none: "processedEvents (pruneExpired (nowPrune rq) st) ev = None"
    using ev by (simp add: servedFromCache_def)
  note eq = postApiResult_computed[OF p False]
  show ?thesis
  proof (cases "computeResult rq parsed (fst (getSessionId rq)) (pruneExpired (nowPrune rq) st)")
    case (Inl st2)
    with computeResult_Inl[OF Inl] eq call have "processedEvents st1 ev = None"
      using none by auto
    with entry show ?thesis by simp
  next
    case (Inr r)
    obtain pl msg st2 where r: "r = (pl, msg, st2)" by (metis surj_pair)
    from eq call entry ev show ?thesis unfolding Inr r by auto
  qed
qed

text \<open>
  Claim C3, as the code has it. Two win reports carry the same event id, and when the
  second arrives the idempotency entry the first left for that id is still in the cache
  and not older than 24 hours (the store \<open>st'\<close> is the store after the first report, or
  after any requests that came between the two). Then the second report is answered with
  status 200 and the payload of the first, queues nothing, and changes the ledger only by
  the pruning of expired entries: the first report adds at most one code to the index of
  the codes and the second adds none.
\<close>

theorem repeated_win_is_idempotent:
  assumes "RESULT_SCHEMA_safeParse (reqBody rq1) = Some \<lparr>result = ''win'', eventId = Some ev\<rparr>"
    and "RESULT_SCHEMA_safeParse (reqBody rq2) = Some \<lparr>result = ''win'', eventId = Some ev\<rparr>"
    and "postApiResult rq1 st0 = (resp1, st1)"
    and "processedEvents st1 ev = Some entry"
    and "processedEvents st' ev = Some entry"
    and "nowPrune rq2 - eventCreatedAt entry \<le> EVENT_TTL_MS"
  shows "httpStatus (fst (postApiResult rq2 st')) = 200
       \<and> body (fst (postApiResult rq2 st')) = body resp1
       \<and> issuedBySession (snd (postApiResult rq2 st'))
           = pruneMap sessionCreatedAt PROMO_TTL_MS (nowPrune rq2) (issuedBySession st')
       \<and> issuedCodes (snd (postApiResult rq2 st'))
           = pruneMap codeCreatedAt PROMO_TTL_MS (nowPrune rq2) (issuedCodes st')
       \<and> queued (snd (postApiResult rq2 st')) = queued st'
       \<and> (\<exists>c. dom (issuedCodes st1) \<subseteq> insert c (dom (issuedCodes st0)))
       \<and> dom (issuedCodes (snd (postApiResult rq2 st'))) \<subseteq> dom (issuedCodes st')"
proof -
  have kept: "processedEvents (pruneExpired (nowPrune rq2) st') ev = Some entry"
    using assms(5,6) by (simp add: pruneMap_def)
  have second: "postApiResult rq2 st' =
           (\<lparr>httpStatus = 200, body = response entry, setCookie = snd (getSessionId rq2)\<rparr>,
            pruneExpired (nowPrune rq2) st')"
    by (rule postApiResult_cached[OF assms(2) _ kept]) simp
  have "response entry = body resp1"
    using first_call_entry[OF assms(1) _ assms(3,4)] by simp
  moreover have "\<exists>c. dom (issuedCodes st1) \<subseteq> insert c (dom (issuedCodes st0))"
    using postApiResult_mints_at_most_one[of rq1 st0] assms(3) by auto
  moreover have "dom (pruneMap codeCreatedAt PROMO_TTL_MS (nowPrune rq2) (issuedCodes st'))
               \<subseteq> dom (issuedCodes st')"
    by (rule dom_pruneMap)
  ultimately show ?thesis unfolding second by simp
qed

lemma String_of_examples:
  "String_of 12345 = ''12345''" "String_of 55555 = ''55555''" "String_of 10000 = ''10000''"
  by (simp_all add: String_of.simps)

lemma pruneMap_empty [simp]: "pruneMap created ttl now Map.empty = Map.empty"
  by (simp add: pruneMap_def)

lemma pruneMap_upd:
  "pruneMap created ttl now (m(k \<mapsto> v)) =
     (if now - created v > ttl then (pruneMap created ttl now m)(k := None)
      else (pruneMap created ttl now m)(k \<mapsto> v))"
  by (auto simp: pruneMap_def)

lemma pruneMap_apply:
  "pruneMap created ttl now m k =
     (case m k of None \<Rightarrow> None
      | Some entry \<Rightarrow> if now - created entry > ttl then None else Some entry)"
  by (simp add: pruneMap_def)

lemma generate_first_draw:
  "codes (String_of (draw 0)) = None \<Longrightarrow>
   generateUniquePromoCode draw codes = Some (String_of (draw 0))"
  by (simp add: generateUniquePromoCode_def numeral_eq_Suc)

lemma generateLoop_collide:
  "(\<forall>j. codes (String_of (draw j)) \<noteq> None) \<Longrightarrow> generateLoop n i draw codes = None"
  by (induction n arbitrary: i) (simp_all add: Let_def)

lemma generate_all_collide:
  "(\<forall>j. codes (String_of (draw j)) \<noteq> None) \<Longrightarrow> generateUniquePromoCode draw codes = None"
  unfolding generateUniquePromoCode_def by (rule generateLoop_collide)

text \<open>The win branch, by what \<open>getSessionPromo\<close> and the generator return.\<close>

lemma computeResult_reuse:
  assumes "result parsed = ''win''"
    and "issuedBySession st sid = Some entry"
    and "nowPromo rq - sessionCreatedAt entry < SESSION_COOLDOWN_MS"
    and "sessionCode entry \<noteq> []"
  shows "computeResult rq parsed sid st
           = Inr (okPayload\<lparr>code := Some (sessionCode entry)\<rparr>, None, st)"
  using assms
  by (simp add: computeResult_def getSessionPromo_def Let_def
        SESSION_COOLDOWN_MS_def PROMO_TTL_MS_def)

lemma getSessionPromo_None:
  assumes "issuedBySession st sid = None
           \<or> (\<exists>entry. issuedBySession st sid = Some entry
                \<and> SESSION_COOLDOWN_MS \<le> nowPromo rq - sessionCreatedAt entry)"
  shows "fst (getSessionPromo (nowPromo rq) sid st) = None
       \<and> issuedCodes (snd (getSessionPromo (nowPromo rq) sid st)) = issuedCodes st
       \<and> (snd (getSessionPromo (nowPromo rq) sid st) = st
           \<or> snd (getSessionPromo (nowPromo rq) sid st)
               = st\<lparr>issuedBySession := (issuedBySession st)(sid := None)\<rparr>)"
  using assms by (auto simp: getSessionPromo_def Let_def)

lemma computeResult_mint:
  assumes "result parsed = ''win''"
    and "issuedBySession st sid = None
         \<or> (\<exists>entry. issuedBySession st sid = Some entry
              \<and> SESSION_COOLDOWN_MS \<le> nowPromo rq - sessionCreatedAt entry)"
    and "generateUniquePromoCode (randomInt rq) (issuedCodes st) = Some c"
  shows "computeResult rq parsed sid st
           = Inr (okPayload\<lparr>code := Some c\<rparr>, Some (winTextPrefix @ c),
                  st\<lparr>issuedCodes := (issuedCodes st)
                        (c \<mapsto> \<lparr>codeCreatedAt = nowMint rq, codeSessionId = sid,
                               redeemed = False\<rparr>),
                     issuedBySession := (issuedBySession st)
                        (sid \<mapsto> \<lparr>sessionCode = c, sessionCreatedAt = nowMint rq\<rparr>)\<rparr>)"
proof -
  obtain ex st1 where g: "getSessionPromo (nowPromo rq) sid st = (ex, st1)" by (metis surj_pair)
  from getSessionPromo_None[OF assms(2)] g
  have ex: "ex = None" and codes: "issuedCodes st1 = issuedCodes st"
    and st1: "st1 = st \<or> st1 = st\<lparr>issuedBySession := (issuedBySession st)(sid := None)\<rparr>"
    by simp_all
  from st1 have "st1\<lparr>issuedCodes := (issuedCodes st)
                        (c \<mapsto> \<lparr>codeCreatedAt = nowMint rq, codeSessionId = sid,
                               redeemed = False\<rparr>),
                     issuedBySession := (issuedBySession st1)
                        (sid \<mapsto> \<lparr>sessionCode = c, sessionCreatedAt = nowMint rq\<rparr>)\<rparr>
        = st\<lparr>issuedCodes := (issuedCodes st)
                        (c \<mapsto> \<lparr>codeCreatedAt = nowMint rq, codeSessionId = sid,
                               redeemed = False\<rparr>),
              issuedBySession := (issuedBySession st)
                        (sid \<mapsto> \<lparr>sessionCode = c, sessionCreatedAt = nowMint rq\<rparr>)\<rparr>"
    by auto
  with assms(1,3) g ex codes show ?thesis
    by (simp add: computeResult_def Let_def)
qed

lemma computeResult_exhausted:
  assumes "result parsed = ''win''"
    and "issuedBySession st sid = None
         \<or> (\<exists>entry. issuedBySession st sid = Some entry
              \<and> SESSION_COOLDOWN_MS \<le> nowPromo rq - sessionCreatedAt entry)"
    and "generateUniquePromoCode (randomInt rq) (issuedCodes st) = None"
  shows "\<exists>st1. computeResult rq parsed sid st = Inl st1
           \<and> issuedCodes st1 = issuedCodes st
           \<and> (st1 = st \<or> st1 = st\<lparr>issuedBySession := (issuedBySession st)(sid := None)\<rparr>)"
proof -
  obtain ex st1 where g: "getSessionPromo (nowPromo rq) sid st = (ex, st1)" by (metis surj_pair)
  from getSessionPromo_None[OF assms(2)] g
  have ex: "ex = None" and codes: "issuedCodes st1 = issuedCodes st"
    and st1: "st1 = st \<or> st1 = st\<lparr>issuedBySession := (issuedBySession st)(sid := None)\<rparr>"
    by simp_all
  with assms(1,3) g show ?thesis
    by (auto simp: computeResult_def)
qed

lemmas example_simps =
  postApiResult_def RESULT_SCHEMA_safeParse_def pruneExpired_def pruneMap_upd getSessionId_def
  getSessionPromo_def computeResult_def queueTelegramMessage_def generate_first_draw
  generate_all_collide okPayload_def errorPayload_def emptyStore_def reportAt_def Let_def
  PROMO_TTL_MS_def SESSION_COOLDOWN_MS_def EVENT_TTL_MS_def String_of_examples

text \<open>
  As stated, claim C3 fails where it says that the second report performs no ledger
  mutation. A session wins at time 0 and receives the code 55555. Six and a half days
  later another session reports a win with the event id \<^verbatim>\<open>event-1\<close>, and twenty hours
  after that it sends the report again. The second report is answered from the cache with
  the payload of the first, and \<open>pruneExpired\<close>, which runs before the cache is read,
  deletes the entry of the code 55555, by then older than seven days, from the index of
  the codes.
\<close>

theorem repeated_win_prunes_ledger:
  "body (fst (postApiResult (reportAt ''win'' (Text ''event-1'') ''s1'' 633600000 12345)
       (snd (postApiResult (reportAt ''win'' (Text ''event-1'') ''s1'' 561600000 12345)
          (snd (postApiResult (reportAt ''win'' Missing ''other'' 0 55555) emptyStore))))))
     = okPayload\<lparr>code := Some ''12345''\<rparr>
   \<and> issuedCodes
       (snd (postApiResult (reportAt ''win'' (Text ''event-1'') ''s1'' 561600000 12345)
          (snd (postApiResult (reportAt ''win'' Missing ''other'' 0 55555) emptyStore))))
       ''55555''
     = Some \<lparr>codeCreatedAt = 0, codeSessionId = ''other'', redeemed = False\<rparr>
   \<and> issuedCodes
       (snd (postApiResult (reportAt ''win'' (Text ''event-1'') ''s1'' 633600000 12345)
          (snd (postApiResult (reportAt ''win'' (Text ''event-1'') ''s1'' 561600000 12345)
             (snd (postApiResult (reportAt ''win'' Missing ''other'' 0 55555) emptyStore))))))
       ''55555''
     = None"
  by (simp add: example_simps)

text \<open>
  The theorem at a win report on the empty store at time 1000 and the same report at time
  2000.
\<close>

theorem repeated_win_is_idempotent_witness:
  "httpStatus (fst (postApiResult (reportAt ''win'' (Text ''event-1'') ''s1'' 2000 12345)
       (snd (postApiResult (reportAt ''win'' (Text ''event-1'') ''s1'' 1000 12345) emptyStore))))
     = 200
   \<and> body (fst (postApiResult (reportAt ''win'' (Text ''event-1'') ''s1'' 2000 12345)
       (snd (postApiResult (reportAt ''win'' (Text ''event-1'') ''s1'' 1000 12345) emptyStore))))
     = body (fst (postApiResult (reportAt ''win'' (Text ''event-1'') ''s1'' 1000 12345) emptyStore))
   \<and> queued (snd (postApiResult (reportAt ''win'' (Text ''event-1'') ''s1'' 2000 12345)
       (snd (postApiResult (reportAt ''win'' (Text ''event-1'') ''s1'' 1000 12345) emptyStore))))
     = queued (snd (postApiResult (reportAt ''win'' (Text ''event-1'') ''s1'' 1000 12345) emptyStore))
   \<and> dom (issuedCodes (snd (postApiResult (reportAt ''win'' (Text ''event-1'') ''s1'' 2000 12345)
       (snd (postApiResult (reportAt ''win'' (Text ''event-1'') ''s1'' 1000 12345) emptyStore)))))
     \<subseteq> dom (issuedCodes
           (snd (postApiResult (reportAt ''win'' (Text ''event-1'') ''s1'' 1000 12345) emptyStore)))"
proof -
  let ?rq1 = "reportAt ''win'' (Text ''event-1'') ''s1'' 1000 12345"
  let ?rq2 = "reportAt ''win'' (Text ''event-1'') ''s1'' 2000 12345"
  let ?entry = "\<lparr>eventCreatedAt = 1000, response = okPayload\<lparr>code := Some ''12345''\<rparr>\<rparr>"
  have p1: "RESULT_SCHEMA_safeParse (reqBody ?rq1) = Some \<lparr>result = ''win'', eventId = Some ''event-1''\<rparr>"
    by (simp add: RESULT_SCHEMA_safeParse_def reportAt_def)
  have p2: "RESULT_SCHEMA_safeParse (reqBody ?rq2) = Some \<lparr>result = ''win'', eventId = Some ''event-1''\<rparr>"
    by (simp add: RESULT_SCHEMA_safeParse_def reportAt_def)
  have call: "postApiResult ?rq1 emptyStore
                = (fst (postApiResult ?rq1 emptyStore), snd (postApiResult ?rq1 emptyStore))"
    by simp
  have entry: "processedEvents (snd (postApiResult ?rq1 emptyStore)) ''event-1'' = Some ?entry"
    by (simp add: example_simps)
  have within: "nowPrune ?rq2 - eventCreatedAt ?entry \<le> EVENT_TTL_MS"
    by (simp add: reportAt_def EVENT_TTL_MS_def)
  from repeated_win_is_idempotent[OF p1 p2 call entry entry within] show ?thesis by blast
qed

lemma winTextPrefix_nonempty [simp]: "winTextPrefix \<noteq> []"
  by (simp add: winTextPrefix_def)

text \<open>The generator and its 20 draws.\<close>

lemma generateLoop_first:
  assumes "i < n" and "codes (String_of (draw (k + i))) = None"
    and "\<forall>j<i. codes (String_of (draw (k + j))) \<noteq> None"
  shows "generateLoop n k draw codes = Some (String_of (draw (k + i)))"
  using assms
proof (induction n arbitrary: k i)
  case 0
  then show ?case by simp
next
  case (Suc n)
  show ?case
  proof (cases i)
    case 0
    with Suc.prems show ?thesis by (simp add: Let_def)
  next
    case (Suc i')
    with Suc.prems have busy: "codes (String_of (draw k)) \<noteq> None" by force
    have "generateLoop n (k + 1) draw codes = Some (String_of (draw (k + 1 + i')))"
    proof (rule Suc.IH)
      show "i' < n" using Suc.prems(1) Suc by simp
      show "codes (String_of (draw (k + 1 + i'))) = None" using Suc.prems(2) Suc by simp
      show "\<forall>j<i'. codes (String_of (draw (k + 1 + j))) \<noteq> None"
      proof (intro allI impI)
        fix j assume "j < i'"
        then have "Suc j < i" using Suc by simp
        with Suc.prems(3) have "codes (String_of (draw (k + Suc j))) \<noteq> None" by blast
        then show "codes (String_of (draw (k + 1 + j))) \<noteq> None" by simp
      qed
    qed
    with busy Suc show ?thesis by (auto simp: Let_def)
  qed
qed

lemma generateLoop_none:
  assumes "\<forall>j<n. codes (String_of (draw (k + j))) \<noteq> None"
  shows "generateLoop n k draw codes = None"
  using assms
proof (induction n arbitrary: k)
  case 0
  show ?case by simp
next
  case (Suc n)
  from Suc.prems have busy: "codes (String_of (draw k)) \<noteq> None" by force
  have "generateLoop n (k + 1) draw codes = None"
  proof (rule Suc.IH, intro allI impI)
    fix j assume "j < n"
    then have "Suc j < Suc n" by simp
    with Suc.prems have "codes (String_of (draw (k + Suc j))) \<noteq> None" by blast
    then show "codes (String_of (draw (k + 1 + j))) \<noteq> None" by simp
  qed
  with busy show ?case by (simp add: Let_def)
qed

lemma generate_first_fresh:
  assumes "i < 20" and "codes (String_of (draw i)) = None"
    and "\<forall>j<i. codes (String_of (draw j)) \<noteq> None"
  shows "generateUniquePromoCode draw codes = Some (String_of (draw i))"
  unfolding generateUniquePromoCode_def
  using generateLoop_first[of i 20 codes draw 0] assms by simp

lemma generate_exhausted:
  assumes "\<forall>i<20. codes (String_of (draw i)) \<noteq> None"
  shows "generateUniquePromoCode draw codes = None"
  unfolding generateUniquePromoCode_def
  using generateLoop_none[of 20 codes draw 0] assms by simp

lemma generate_None_iff:
  "(generateUniquePromoCode draw codes = None) = (\<forall>i<20. codes (String_of (draw i)) \<noteq> None)"
proof
  assume none: "generateUniquePromoCode draw codes = None"
  show "\<forall>i<20. codes (String_of (draw i)) \<noteq> None"
  proof (rule ccontr)
    assume "\<not> (\<forall>i<20. codes (String_of (draw i)) \<noteq> None)"
    then have ex: "\<exists>i. i < 20 \<and> codes (String_of (draw i)) = None" by auto
    define i where "i = (LEAST i. i < 20 \<and> codes (String_of (draw i)) = None)"
    from ex have "i < 20 \<and> codes (String_of (draw i)) = None"
      unfolding i_def by (rule LeastI_ex)
    moreover have "\<forall>j<i. codes (String_of (draw j)) \<noteq> None"
    proof (intro allI impI)
      fix j assume "j < i"
      then have "\<not> (j < 20 \<and> codes (String_of (draw j)) = None)"
        unfolding i_def by (rule not_less_Least)
      moreover from \<open>j < i\<close> \<open>i < 20 \<and> _\<close> have "j < 20" by simp
      ultimately show "codes (String_of (draw j)) \<noteq> None" by simp
    qed
    ultimately have "generateUniquePromoCode draw codes = Some (String_of (draw i))"
      by (intro generate_first_fresh) simp_all
    with none show False by simp
  qed
next
  assume "\<forall>i<20. codes (String_of (draw i)) \<noteq> None"
  then show "generateUniquePromoCode draw codes = None" by (rule generate_exhausted)
qed

text \<open>The entry of the session after \<open>pruneExpired\<close>.\<close>

lemma pruned_session:
  assumes "issuedBySession st sid = Some entry"
    and "nowPrune rq - sessionCreatedAt entry \<le> PROMO_TTL_MS"
  shows "issuedBySession (pruneExpired (nowPrune rq) st) sid = Some entry"
  using assms by (simp add: pruneMap_apply)

lemma pruned_session_late:
  assumes "issuedBySession st sid = None
           \<or> (\<exists>entry. issuedBySession st sid = Some entry
                \<and> (PROMO_TTL_MS < nowPrune rq - sessionCreatedAt entry
                     \<or> SESSION_COOLDOWN_MS \<le> nowPromo rq - sessionCreatedAt entry))"
  shows "issuedBySession (pruneExpired (nowPrune rq) st) sid = None
         \<or> (\<exists>entry. issuedBySession (pruneExpired (nowPrune rq) st) sid = Some entry
              \<and> SESSION_COOLDOWN_MS \<le> nowPromo rq - sessionCreatedAt entry)"
proof (cases "issuedBySession (pruneExpired (nowPrune rq) st) sid")
  case None
  then show ?thesis by simp
next
  case (Some kept)
  then have "issuedBySession st sid = Some kept"
    and "\<not> PROMO_TTL_MS < nowPrune rq - sessionCreatedAt kept"
    by (auto simp: pruneMap_apply split: option.splits if_splits)
  with assms Some show ?thesis by auto
qed

text \<open>
  Claim C4, as the code has it. A win report that is answered from the idempotency cache
  returns the cached payload and leaves the ledger as \<open>pruneExpired\<close> leaves it. For a win
  report that is not answered from the cache: if the session has an entry whose age is
  within the promo TTL of 7 days when \<open>pruneExpired\<close> reads the clock and below the cooldown
  of 24 hours when \<open>getSessionPromo\<close> reads it, and whose code is not the empty string (no
  minted code is), the report returns the code of that entry and adds nothing to the
  ledger. If the session has no entry, or one that is older than the TTL at the first
  reading or at least as old as the cooldown at the second, the report takes the first of
  its 20 draws that is not an issued code, records it in both indices with the same time
  and returns it; if all 20 draws are issued codes the report fails with status 500 and
  mints nothing.
\<close>

theorem win_reuses_or_mints:
  assumes "RESULT_SCHEMA_safeParse (reqBody rq) = Some parsed" and "result parsed = ''win''"
    and "sid = fst (getSessionId rq)"
    and "live = pruneExpired (nowPrune rq) st"
  shows "(\<forall>ev cached. eventId parsed = Some ev \<and> processedEvents live ev = Some cached
          \<longrightarrow> httpStatus (fst (postApiResult rq st)) = 200
            \<and> body (fst (postApiResult rq st)) = response cached
            \<and> issuedCodes (snd (postApiResult rq st)) = issuedCodes live
            \<and> issuedBySession (snd (postApiResult rq st)) = issuedBySession live
            \<and> queued (snd (postApiResult rq st)) = queued st)
       \<and> (\<not> servedFromCache rq parsed st
          \<longrightarrow> (\<forall>entry. issuedBySession st sid = Some entry
                  \<and> nowPrune rq - sessionCreatedAt entry \<le> PROMO_TTL_MS
                  \<and> nowPromo rq - sessionCreatedAt entry < SESSION_COOLDOWN_MS
                  \<and> sessionCode entry \<noteq> []
                \<longrightarrow> httpStatus (fst (postApiResult rq st)) = 200
                  \<and> body (fst (postApiResult rq st))
                      = okPayload\<lparr>code := Some (sessionCode entry)\<rparr>
                  \<and> issuedCodes (snd (postApiResult rq st)) = issuedCodes live
                  \<and> issuedBySession (snd (postApiResult rq st)) = issuedBySession live
                  \<and> queued (snd (postApiResult rq st)) = queued st)
            \<and> (issuedBySession st sid = None
                 \<or> (\<exists>entry. issuedBySession st sid = Some entry
                      \<and> (PROMO_TTL_MS < nowPrune rq - sessionCreatedAt entry
                           \<or> SESSION_COOLDOWN_MS \<le> nowPromo rq - sessionCreatedAt entry))
                \<longrightarrow> (\<forall>i c. i < 20 \<and> c = String_of (randomInt rq i)
                        \<and> issuedCodes live c = None
                        \<and> (\<forall>j<i. issuedCodes live (String_of (randomInt rq j)) \<noteq> None)
                      \<longrightarrow> httpStatus (fst (postApiResult rq st)) = 200
                        \<and> body (fst (postApiResult rq st)) = okPayload\<lparr>code := Some c\<rparr>
                        \<and> issuedCodes (snd (postApiResult rq st))
                            = (issuedCodes live)
                                (c \<mapsto> \<lparr>codeCreatedAt = nowMint rq, codeSessionId = sid,
                                       redeemed = False\<rparr>)
                        \<and> issuedBySession (snd (postApiResult rq st))
                            = (issuedBySession live)
                                (sid \<mapsto> \<lparr>sessionCode = c, sessionCreatedAt = nowMint rq\<rparr>)
                        \<and> queued (snd (postApiResult rq st)) = queued st @ [winTextPrefix @ c])
                  \<and> ((\<forall>i<20. issuedCodes live (String_of (randomInt rq i)) \<noteq> None)
                      \<longrightarrow> httpStatus (fst (postApiResult rq st)) = 500
                        \<and> issuedCodes (snd (postApiResult rq st)) = issuedCodes live
                        \<and> issuedBySession (snd (postApiResult rq st)) \<subseteq>\<^sub>m issuedBySession live
                        \<and> queued (snd (postApiResult rq st)) = queued st)))"
proof (intro conjI allI impI)
  fix ev cached
  assume "eventId parsed = Some ev \<and> processedEvents live ev = Some cached"
  then have ev: "eventId parsed = Some ev"
    and hit: "processedEvents (pruneExpired (nowPrune rq) st) ev = Some cached"
    unfolding assms(4) by simp_all
  note eq = postApiResult_cached[OF assms(1) ev hit, folded assms(4)]
  show "httpStatus (fst (postApiResult rq st)) = 200" unfolding eq by simp
  show "body (fst (postApiResult rq st)) = response cached" unfolding eq by simp
  show "issuedCodes (snd (postApiResult rq st)) = issuedCodes live" unfolding eq by simp
  show "issuedBySession (snd (postApiResult rq st)) = issuedBySession live" unfolding eq by simp
  show "queued (snd (postApiResult rq st)) = queued st" unfolding eq by (simp add: assms(4))
next
  fix entry
  assume nc: "\<not> servedFromCache rq parsed st"
  note eq = postApiResult_computed[OF assms(1) nc, folded assms(3,4)]
  assume h: "issuedBySession st sid = Some entry
                  \<and> nowPrune rq - sessionCreatedAt entry \<le> PROMO_TTL_MS
                  \<and> nowPromo rq - sessionCreatedAt entry < SESSION_COOLDOWN_MS
                  \<and> sessionCode entry \<noteq> []"
  then have "issuedBySession live sid = Some entry"
    unfolding assms(4) by (intro pruned_session) simp_all
  from computeResult_reuse[OF assms(2) this, of rq] h
  have comp: "computeResult rq parsed sid live
           = Inr (okPayload\<lparr>code := Some (sessionCode entry)\<rparr>, None, live)" by simp
  show "httpStatus (fst (postApiResult rq st)) = 200"
    unfolding eq comp by simp
  show "body (fst (postApiResult rq st)) = okPayload\<lparr>code := Some (sessionCode entry)\<rparr>"
    unfolding eq comp by simp
  show "issuedCodes (snd (postApiResult rq st)) = issuedCodes live"
    unfolding eq comp by (simp split: option.split)
  show "issuedBySession (snd (postApiResult rq st)) = issuedBySession live"
    unfolding eq comp by (simp split: option.split)
  show "queued (snd (postApiResult rq st)) = queued st"
    unfolding eq comp by (simp add: assms(4) split: option.split)
next
  fix i c
  assume nc: "\<not> servedFromCache rq parsed st"
  note eq = postApiResult_computed[OF assms(1) nc, folded assms(3,4)]
  assume late: "issuedBySession st sid = None
                 \<or> (\<exists>entry. issuedBySession st sid = Some entry
                      \<and> (PROMO_TTL_MS < nowPrune rq - sessionCreatedAt entry
                           \<or> SESSION_COOLDOWN_MS \<le> nowPromo rq - sessionCreatedAt entry))"
    and draw: "i < 20 \<and> c = String_of (randomInt rq i)
                        \<and> issuedCodes live c = None
                        \<and> (\<forall>j<i. issuedCodes live (String_of (randomInt rq j)) \<noteq> None)"
  from pruned_session_late[OF late] have late': "issuedBySession live sid = None
           \<or> (\<exists>entry. issuedBySession live sid = Some entry
                \<and> SESSION_COOLDOWN_MS \<le> nowPromo rq - sessionCreatedAt entry)"
    unfolding assms(4) .
  from draw have c: "c = String_of (randomInt rq i)" by blast
  from draw have "generateUniquePromoCode (randomInt rq) (issuedCodes live)
                    = Some (String_of (randomInt rq i))"
    unfolding c by (intro generate_first_fresh) blast+
  then have gen: "generateUniquePromoCode (randomInt rq) (issuedCodes live) = Some c"
    unfolding c .
  note comp = computeResult_mint[OF assms(2) late' gen]
  show "httpStatus (fst (postApiResult rq st)) = 200"
    unfolding eq comp by simp
  show "body (fst (postApiResult rq st)) = okPayload\<lparr>code := Some c\<rparr>"
    unfolding eq comp by simp
  show "issuedCodes (snd (postApiResult rq st))
          = (issuedCodes live)
              (c \<mapsto> \<lparr>codeCreatedAt = nowMint rq, codeSessionId = sid, redeemed = False\<rparr>)"
    unfolding eq comp by (simp split: option.split)
  show "issuedBySession (snd (postApiResult rq st))
          = (issuedBySession live)(sid \<mapsto> \<lparr>sessionCode = c, sessionCreatedAt = nowMint rq\<rparr>)"
    unfolding eq comp by (simp split: option.split)
  show "queued (snd (postApiResult rq st)) = queued st @ [winTextPrefix @ c]"
    unfolding eq comp by (simp add: queueTelegramMessage_def assms(4) split: option.split)
next
  assume nc: "\<not> servedFromCache rq parsed st"
  note eq = postApiResult_computed[OF assms(1) nc, folded assms(3,4)]
  assume late: "issuedBySession st sid = None
                 \<or> (\<exists>entry. issuedBySession st sid = Some entry
                      \<and> (PROMO_TTL_MS < nowPrune rq - sessionCreatedAt entry
                           \<or> SESSION_COOLDOWN_MS \<le> nowPromo rq - sessionCreatedAt entry))"
    and busy: "\<forall>i<20. issuedCodes live (String_of (randomInt rq i)) \<noteq> None"
  from pruned_session_late[OF late] have late': "issuedBySession live sid = None
           \<or> (\<exists>entry. issuedBySession live sid = Some entry
                \<and> SESSION_COOLDOWN_MS \<le> nowPromo rq - sessionCreatedAt entry)"
    unfolding assms(4) .
  from busy have gen: "generateUniquePromoCode (randomInt rq) (issuedCodes live) = None"
    by (rule generate_exhausted)
  from computeResult_exhausted[OF assms(2) late' gen] obtain st1 where
    comp: "computeResult rq parsed sid live = Inl st1"
    and codes: "issuedCodes st1 = issuedCodes live"
    and st1: "st1 = live \<or> st1 = live\<lparr>issuedBySession := (issuedBySession live)(sid := None)\<rparr>"
    by blast
  show "httpStatus (fst (postApiResult rq st)) = 500"
    unfolding eq comp by simp
  show "issuedCodes (snd (postApiResult rq st)) = issuedCodes live"
    unfolding eq comp using codes by simp
  show "issuedBySession (snd (postApiResult rq st)) \<subseteq>\<^sub>m issuedBySession live"
    unfolding eq comp using st1 by (auto simp: map_le_def split: if_splits)
  show "queued (snd (postApiResult rq st)) = queued st"
    unfolding eq comp using st1 by (auto simp: assms(4))
qed

text \<open>
  No store the server reaches holds an empty code for a session: the codes come from the
  generator.
\<close>

lemma getSessionPromo_sessions:
  "issuedBySession (snd (getSessionPromo now sid st)) s = Some e \<Longrightarrow> issuedBySession st s = Some e"
  by (auto simp: getSessionPromo_def Let_def split: option.splits if_splits)

lemma computeResult_sessions:
  assumes "computeResult rq parsed sid st = Inr (p, msg, st2)"
    and "issuedBySession st2 s = Some e"
  shows "issuedBySession st s = Some e \<or> sessionCode e \<noteq> []"
proof (cases "result parsed = ''win''")
  case False
  with assms show ?thesis by (auto simp: computeResult_def split: if_splits)
next
  case True
  obtain existing st1 where g: "getSessionPromo (nowPromo rq) sid st = (existing, st1)"
    by (metis surj_pair)
  then have st1: "issuedBySession st1 s = Some e \<Longrightarrow> issuedBySession st s = Some e"
    using getSessionPromo_sessions[of "nowPromo rq" sid st s e] by simp
  show ?thesis
  proof (cases "truthy existing")
    case t: True
    with assms True g st1 show ?thesis by (simp add: computeResult_def)
  next
    case f: False
    with assms(1) True g obtain c where
      c: "generateUniquePromoCode (randomInt rq) (issuedCodes st1) = Some c"
      by (auto simp: computeResult_def split: option.splits)
    then have ne: "c \<noteq> []"
      unfolding generateUniquePromoCode_def by (rule generateLoop_nonempty)
    from assms True g f c have
      "issuedBySession st2 = (issuedBySession st1)
         (sid \<mapsto> \<lparr>sessionCode = c, sessionCreatedAt = nowMint rq\<rparr>)"
      by (auto simp: computeResult_def Let_def)
    with assms(2) ne st1 show ?thesis by (auto split: if_splits)
  qed
qed

lemma postApiResult_sessions:
  assumes "issuedBySession (snd (postApiResult rq st)) s = Some e"
  shows "issuedBySession st s = Some e \<or> sessionCode e \<noteq> []"
proof (cases "RESULT_SCHEMA_safeParse (reqBody rq)")
  case None
  with assms show ?thesis by (simp add: postApiResult_def)
next
  case (Some parsed)
  let ?live = "pruneExpired (nowPrune rq) st"
  have live: "issuedBySession ?live s = Some e \<Longrightarrow> issuedBySession st s = Some e"
    by (auto simp: pruneMap_apply split: option.splits if_splits)
  show ?thesis
  proof (cases "servedFromCache rq parsed st")
    case True
    then obtain ev entry where "eventId parsed = Some ev"
      "processedEvents ?live ev = Some entry"
      by (auto simp: servedFromCache_def split: option.splits)
    from postApiResult_cached[OF Some this] assms live show ?thesis by simp
  next
    case False
    note eq = postApiResult_computed[OF Some False]
    show ?thesis
    proof (cases "computeResult rq parsed (fst (getSessionId rq)) ?live")
      case (Inl st2)
      have "issuedBySession st2 s = Some e"
        using assms unfolding eq Inl by simp
      moreover have "issuedBySession st2 s = Some e \<Longrightarrow> issuedBySession ?live s = Some e"
        using Inl
        by (auto simp: computeResult_def getSessionPromo_def Let_def
              split: if_splits option.splits prod.splits)
      ultimately show ?thesis using live by blast
    next
      case (Inr r)
      obtain p msg st2 where r: "r = (p, msg, st2)" by (metis surj_pair)
      have "issuedBySession st2 s = Some e"
        using assms unfolding eq Inr r by (simp split: option.splits)
      from computeResult_sessions[OF Inr[unfolded r] this] live show ?thesis by blast
    qed
  qed
qed

lemma reachable_codes_nonempty:
  "reachableStore st \<Longrightarrow> issuedBySession st sid = Some entry \<Longrightarrow> sessionCode entry \<noteq> []"
proof (induction arbitrary: sid entry rule: reachableStore.induct)
  case at_start
  then show ?case by (simp add: emptyStore_def)
next
  case (after_request st rq)
  from postApiResult_sessions[OF after_request.prems] after_request.IH show ?case by blast
qed

text \<open>
  As stated, claim C4 fails in two ways. After the code 10000 has been issued, a win
  report of a session without an entry whose 20 draws all give 10000 mints nothing and is
  answered with status 500. And a win report of a session that holds a code one second
  old, sent with the event id of an earlier loss report, is answered from the cache with
  the payload of the loss report, which carries no code.
\<close>

theorem win_without_code:
  "httpStatus (fst (postApiResult (reportAt ''win'' Missing ''s1'' 1000 10000)
       (snd (postApiResult (reportAt ''win'' Missing ''other'' 0 10000) emptyStore))))
     = 500
   \<and> issuedBySession (snd (postApiResult (reportAt ''win'' Missing ''s1'' 1000 10000)
       (snd (postApiResult (reportAt ''win'' Missing ''other'' 0 10000) emptyStore))))
       ''s1''
     = None
   \<and> issuedBySession
       (snd (postApiResult (reportAt ''loss'' (Text ''event-1'') ''s1'' 1500 12345)
          (snd (postApiResult (reportAt ''win'' Missing ''s1'' 1000 12345) emptyStore))))
       ''s1''
     = Some \<lparr>sessionCode = ''12345'', sessionCreatedAt = 1000\<rparr>
   \<and> body (fst (postApiResult (reportAt ''win'' (Text ''event-1'') ''s1'' 2000 12345)
       (snd (postApiResult (reportAt ''loss'' (Text ''event-1'') ''s1'' 1500 12345)
          (snd (postApiResult (reportAt ''win'' Missing ''s1'' 1000 12345) emptyStore))))))
     = okPayload"
  by (simp add: example_simps lossText_def)

text \<open>
  The theorem at three reports: the first win report of a session on the empty store,
  whose first draw 12345 is minted; the next win report of that session a second later,
  which returns that code; and a win report of the session sent with the event id of a
  loss report it made in between, which is answered with the payload of the loss report.
\<close>

theorem win_reuses_or_mints_witness:
  "body (fst (postApiResult (reportAt ''win'' Missing ''s1'' 1000 12345) emptyStore))
     = okPayload\<lparr>code := Some ''12345''\<rparr>
   \<and> body (fst (postApiResult (reportAt ''win'' Missing ''s1'' 2000 33333)
       (snd (postApiResult (reportAt ''win'' Missing ''s1'' 1000 12345) emptyStore))))
     = okPayload\<lparr>code := Some ''12345''\<rparr>
   \<and> body (fst (postApiResult (reportAt ''win'' (Text ''event-1'') ''s1'' 2000 12345)
       (snd (postApiResult (reportAt ''loss'' (Text ''event-1'') ''s1'' 1500 12345)
          (snd (postApiResult (reportAt ''win'' Missing ''s1'' 1000 12345) emptyStore))))))
     = okPayload"
proof -
  let ?rq1 = "reportAt ''win'' Missing ''s1'' 1000 12345"
  let ?rq2 = "reportAt ''win'' Missing ''s1'' 2000 33333"
  let ?rqL = "reportAt ''loss'' (Text ''event-1'') ''s1'' 1500 12345"
  let ?rq3 = "reportAt ''win'' (Text ''event-1'') ''s1'' 2000 12345"
  let ?st1 = "snd (postApiResult ?rq1 emptyStore)"
  let ?st2 = "snd (postApiResult ?rqL ?st1)"
  let ?parsed = "\<lparr>result = ''win'', eventId = None\<rparr>"
  let ?parsed3 = "\<lparr>result = ''win'', eventId = Some ''event-1''\<rparr>"
  let ?entry = "\<lparr>sessionCode = ''12345'', sessionCreatedAt = 1000\<rparr>"
  let ?cached = "\<lparr>eventCreatedAt = 1500, response = okPayload\<rparr>"
  have p1: "RESULT_SCHEMA_safeParse (reqBody ?rq1) = Some ?parsed"
    and p2: "RESULT_SCHEMA_safeParse (reqBody ?rq2) = Some ?parsed"
    and p3: "RESULT_SCHEMA_safeParse (reqBody ?rq3) = Some ?parsed3"
    by (simp_all add: RESULT_SCHEMA_safeParse_def reportAt_def)
  have w: "result ?parsed = ''win''" "result ?parsed3 = ''win''" by simp_all
  have nc: "\<not> servedFromCache ?rq1 ?parsed emptyStore" "\<not> servedFromCache ?rq2 ?parsed ?st1"
    by (simp_all add: servedFromCache_def)
  have sid: "''s1'' = fst (getSessionId ?rq1)" "''s1'' = fst (getSessionId ?rq2)"
    "''s1'' = fst (getSessionId ?rq3)"
    by (simp_all add: getSessionId_def reportAt_def)
  have absent: "issuedBySession emptyStore ''s1'' = None" by (simp add: emptyStore_def)
  have first: "(0::nat) < 20 \<and> ''12345'' = String_of (randomInt ?rq1 0)
      \<and> issuedCodes (pruneExpired (nowPrune ?rq1) emptyStore) ''12345'' = None
      \<and> (\<forall>j<0. issuedCodes (pruneExpired (nowPrune ?rq1) emptyStore)
                   (String_of (randomInt ?rq1 j)) \<noteq> None)"
    by (simp add: example_simps)
  have held: "issuedBySession ?st1 ''s1'' = Some ?entry
            \<and> nowPrune ?rq2 - sessionCreatedAt ?entry \<le> PROMO_TTL_MS
            \<and> nowPromo ?rq2 - sessionCreatedAt ?entry < SESSION_COOLDOWN_MS
            \<and> sessionCode ?entry \<noteq> []"
    by (simp add: example_simps)
  have hit: "eventId ?parsed3 = Some ''event-1''
            \<and> processedEvents (pruneExpired (nowPrune ?rq3) ?st2) ''event-1'' = Some ?cached"
    by (simp add: example_simps lossText_def)
  from win_reuses_or_mints[OF p1 w(1) sid(1) refl, of emptyStore] nc(1) absent first
  have "body (fst (postApiResult ?rq1 emptyStore)) = okPayload\<lparr>code := Some ''12345''\<rparr>"
    by blast
  moreover from win_reuses_or_mints[OF p2 w(1) sid(2) refl, of ?st1] nc(2) held
  have "body (fst (postApiResult ?rq2 ?st1)) = okPayload\<lparr>code := Some (sessionCode ?entry)\<rparr>"
    by blast
  moreover from win_reuses_or_mints[OF p3 w(2) sid(3) refl, of ?st2] hit
  have "body (fst (postApiResult ?rq3 ?st2)) = response ?cached"
    by blast
  ultimately show ?thesis by simp
qed

end
